theory Spec2Isabelle
  imports Main "HOL-Library.AList" "HOL-Library.Char_ord" "HOL-Library.List_Lexorder"
begin

section \<open>Data model\<close>

text \<open>
  The two scripts \<^verbatim>\<open>scripts/rescan_all_subjects.py\<close> (the synchronizer) and
  \<^verbatim>\<open>scripts/generate_dandiset_assets.py\<close> (the standalone index regeneration) work on
  JSON dictionaries. A dictionary with a fixed set of keys is a record here; a dictionary
  that is iterated (\<^verbatim>\<open>matched_locations\<close>, the label cache, the grouping tables) is an
  association list in insertion order, which is the iteration order of a Python dict.
  Strings are byte lists ordered lexicographically (\<open>Char_ord\<close>, \<open>List_Lexorder\<close>), which
  is Python's order on \<^verbatim>\<open>str\<close> for UTF-8 text. A dandiset identifier is any linearly
  ordered type (the scripts only compare and sort it).

  Every exception the scripts can raise on well-typed input is a value \<open>Inl\<close> of the result:
  a missing log, a line that does not parse, \<^verbatim>\<open>[0]\<close> on an empty list, a failing listing,
  a failing labeling. Outside the model are failures of the file system while appending to
  the log or writing the index, the serialisation of the index by \<^verbatim>\<open>json.dump\<close>, and
  JSON values of another shape than the data model gives them.
\<close>

datatype error =
  FileNotFoundError | MalformedRecordError | IndexError | ListingError | LabelingError

text \<open>A region-match record \<^verbatim>\<open>{"id": .., "acronym": .., "name": ..}\<close>.\<close>

record region =
  region_id :: int
  acronym :: string
  name :: string

type_synonym locations = "(string \<times> region list) list"

text \<open>
  One parsed line of \<^verbatim>\<open>label_cache.jsonl\<close>. The key \<^verbatim>\<open>matched_locations\<close> is read with
  \<^verbatim>\<open>.get("matched_locations", {})\<close>, so it may be absent (\<open>None\<close>).
\<close>

record 'd entry =
  dandiset_id :: 'd
  asset_id :: string
  path :: string
  status :: string
  matched_locations :: "locations option"

text \<open>One asset of the listing returned by \<^verbatim>\<open>get_nwb_assets_paged\<close>: \<^verbatim>\<open>asset["asset_id"]\<close>, \<^verbatim>\<open>asset["path"]\<close>.\<close>

record asset =
  listed_asset_id :: string
  listed_path :: string

text \<open>One record of the output index: \<^verbatim>\<open>{"path": .., "asset_id": .., "regions": ..}\<close>.\<close>

record index_asset =
  out_path :: string
  out_asset_id :: string
  regions :: "region list"

text \<open>
  One line of the persisted log, as the script that reads it classifies it:
  \<^verbatim>\<open>line.strip()\<close> is empty (\<open>Blank\<close>); \<^verbatim>\<open>json.loads\<close> fails or a required key is
  missing (\<open>Malformed\<close>); or the line is one entry (\<open>Record\<close>). The two scripts can
  classify one line of text differently (see \<open>log_line\<close> below). \<^verbatim>\<open>json.loads\<close> of a line
  that is only whitespace raises, so a script that does not test for blank lines fails there.
  The required keys are \<^verbatim>\<open>dandiset_id\<close>, \<^verbatim>\<open>asset_id\<close> and \<^verbatim>\<open>path\<close>; the standalone
  script reads all three at the line, the synchronizer reads \<^verbatim>\<open>path\<close> only when it builds
  the index, and either way the script ends with the exception before it writes an index.
  The file itself may be absent: a log is a \<open>line list option\<close>.
\<close>

datatype 'd line = Blank | Malformed | Record "'d entry"

type_synonym 'd cache = "(('d \<times> string) \<times> 'd entry) list"

type_synonym 'd index = "('d \<times> index_asset list) list"

definition FILTER_IDS :: "int set" where
  "FILTER_IDS = {997, 8}"

section \<open>Subject extraction\<close>

text \<open>\<^verbatim>\<open>str.split(sep)\<close> for a one-character separator: never the empty list.\<close>

fun py_split :: "char \<Rightarrow> string \<Rightarrow> string list" where
  "py_split sep [] = [[]]"
| "py_split sep (c # cs) =
     (if c = sep then [] # py_split sep cs
      else (case py_split sep cs of [] \<Rightarrow> [[c]] | p # ps \<Rightarrow> (c # p) # ps))"

text \<open>
  \<^verbatim>\<open>parts = path.split("/"); return parts[0] if len(parts) > 1 else path.split("_")[0]\<close>,
  as written in \<^verbatim>\<open>rescan_all_subjects.py\<close>. Both \<open>hd\<close> are taken of a list that
  \<open>py_split_not_Nil\<close> shows non-empty, as \<^verbatim>\<open>[0]\<close> needs.
\<close>

definition extract_subject :: "string \<Rightarrow> string" where
  "extract_subject p =
     (let parts = py_split (CHR ''/'') p
      in if length parts > 1 then hd parts else hd (py_split (CHR ''_'') p))"

text \<open>The copy of the function in \<^verbatim>\<open>generate_dandiset_assets.py\<close>.\<close>

definition gen_extract_subject :: "string \<Rightarrow> string" where
  "gen_extract_subject p =
     (let parts = py_split (CHR ''/'') p
      in if length parts > 1 then hd parts else hd (py_split (CHR ''_'') p))"

section \<open>Python containers and iteration\<close>

text \<open>
  A \<^verbatim>\<open>for\<close> loop whose body may raise: the state is threaded through the items, and the
  first exception ends the loop.
\<close>

fun for_each :: "('s \<Rightarrow> 'a \<Rightarrow> error + 's) \<Rightarrow> 'a list \<Rightarrow> 's \<Rightarrow> error + 's" where
  "for_each body [] st = Inr st"
| "for_each body (x # xs) st =
     (case body st x of Inl err \<Rightarrow> Inl err | Inr st' \<Rightarrow> for_each body xs st')"

text \<open>
  A \<^verbatim>\<open>defaultdict\<close>, as an association list in insertion order. \<open>dd_modify k f dflt d\<close> is
  the in-place change \<^verbatim>\<open>d[k]\<close> \<open>:= f\<close> \<^verbatim>\<open>(d[k])\<close>, where a missing key is first created with
  the default at the end of the dictionary; \<open>dd_get dflt d k\<close> reads \<^verbatim>\<open>d[k]\<close>.
\<close>

fun dd_modify :: "'k \<Rightarrow> ('v \<Rightarrow> 'v) \<Rightarrow> 'v \<Rightarrow> ('k \<times> 'v) list \<Rightarrow> ('k \<times> 'v) list" where
  "dd_modify k f dflt [] = [(k, f dflt)]"
| "dd_modify k f dflt ((k', v) # d) =
     (if k' = k then (k', f v) # d else (k', v) # dd_modify k f dflt d)"

definition dd_get :: "'v \<Rightarrow> ('k \<times> 'v) list \<Rightarrow> 'k \<Rightarrow> 'v" where
  "dd_get dflt d k = (case map_of d k of None \<Rightarrow> dflt | Some v \<Rightarrow> v)"

text \<open>\<^verbatim>\<open>d[k].append(v)\<close> on a \<^verbatim>\<open>defaultdict(list)\<close>.\<close>

definition dd_append :: "'k \<Rightarrow> 'v \<Rightarrow> ('k \<times> 'v list) list \<Rightarrow> ('k \<times> 'v list) list" where
  "dd_append k v d = dd_modify k (\<lambda>vs. vs @ [v]) [] d"

text \<open>\<^verbatim>\<open>d[k1][k2].append(v)\<close> on a \<^verbatim>\<open>defaultdict(lambda: defaultdict(list))\<close>.\<close>

definition dd_append2 ::
  "'k \<Rightarrow> 's \<Rightarrow> 'v \<Rightarrow> ('k \<times> ('s \<times> 'v list) list) list \<Rightarrow> ('k \<times> ('s \<times> 'v list) list) list" where
  "dd_append2 k1 k2 v d = dd_modify k1 (dd_append k2 v) [] d"

section \<open>Region lists\<close>

text \<open>The dictionary literal \<^verbatim>\<open>{"id": m["id"], "acronym": m["acronym"], "name": m["name"]}\<close>.\<close>

definition region_of :: "region \<Rightarrow> region" where
  "region_of m = \<lparr>region_id = region_id m, acronym = acronym m, name = name m\<rparr>"

text \<open>\<^verbatim>\<open>entry.get("matched_locations", {})\<close>, as the list of its items.\<close>

definition matched_of :: "'d entry \<Rightarrow> locations" where
  "matched_of e = (case matched_locations e of None \<Rightarrow> [] | Some matched \<Rightarrow> matched)"

text \<open>
  \<^verbatim>\<open>generate_dandiset_assets.py\<close>, lines 38-54: a first pass drops the identifiers of
  \<open>FILTER_IDS\<close>, a second pass keeps the first record of each identifier.
\<close>

definition gen_keep :: "region list \<Rightarrow> region \<Rightarrow> region list" where
  "gen_keep regs m = (if region_id m \<notin> FILTER_IDS then regs @ [region_of m] else regs)"

definition gen_filtered :: "locations \<Rightarrow> region list" where
  "gen_filtered matched = foldl (\<lambda>regs (loc_key, matches). foldl gen_keep regs matches) [] matched"

definition gen_dedup :: "region list \<times> int set \<Rightarrow> region \<Rightarrow> region list \<times> int set" where
  "gen_dedup st r =
     (case st of (unique_regions, seen) \<Rightarrow>
        if region_id r \<notin> seen then (unique_regions @ [r], insert (region_id r) seen)
        else (unique_regions, seen))"

definition gen_regions :: "locations \<Rightarrow> region list" where
  "gen_regions matched = fst (foldl gen_dedup ([], {}) (gen_filtered matched))"

text \<open>\<^verbatim>\<open>rescan_all_subjects.py\<close>, lines 135-146: one pass with both tests.\<close>

definition rescan_keep :: "region list \<times> int set \<Rightarrow> region \<Rightarrow> region list \<times> int set" where
  "rescan_keep st m =
     (case st of (regs, seen) \<Rightarrow>
        if region_id m \<notin> FILTER_IDS \<and> region_id m \<notin> seen
        then (regs @ [region_of m], insert (region_id m) seen)
        else (regs, seen))"

definition rescan_regions :: "locations \<Rightarrow> region list" where
  "rescan_regions matched =
     fst (foldl (\<lambda>st (loc_key, matches). foldl rescan_keep st matches) ([], {}) matched)"

text \<open>The record each script emits for an entry.\<close>

definition gen_record :: "'d entry \<Rightarrow> index_asset" where
  "gen_record e =
     \<lparr>out_path = path e, out_asset_id = asset_id e, regions = gen_regions (matched_of e)\<rparr>"

definition rescan_record :: "'d entry \<Rightarrow> index_asset" where
  "rescan_record e =
     \<lparr>out_path = path e, out_asset_id = asset_id e, regions = rescan_regions (matched_of e)\<rparr>"

text \<open>
  The region list in the words of the specification: the records of all location keys in
  iteration order, without the excluded identifiers, each kept at the first position where
  its identifier occurs.
\<close>

definition flat_matches :: "locations \<Rightarrow> region list" where
  "flat_matches matched = concat (map snd matched)"

definition first_seen :: "region list \<Rightarrow> region list" where
  "first_seen rs =
     map (\<lambda>i. rs ! i)
       (filter (\<lambda>i. region_id (rs ! i) \<notin> region_id ` set (take i rs)) [0..<length rs])"

definition spec_regions :: "locations \<Rightarrow> region list" where
  "spec_regions matched =
     first_seen (filter (\<lambda>m. region_id m \<noteq> 8 \<and> region_id m \<noteq> 997) (flat_matches matched))"

section \<open>The cache log\<close>

text \<open>
  \<^verbatim>\<open>load_label_cache\<close> of \<^verbatim>\<open>rescan_all_subjects.py\<close>. \<^verbatim>\<open>cache[key] = entry\<close> is
  \<open>AList.update\<close>: a key already present keeps its position and takes the new value.
\<close>

fun load_lines :: "'d line list \<Rightarrow> 'd cache \<Rightarrow> error + 'd cache" where
  "load_lines [] cache = Inr cache"
| "load_lines (Blank # ls) cache = load_lines ls cache"
| "load_lines (Malformed # ls) cache = Inl MalformedRecordError"
| "load_lines (Record e # ls) cache =
     load_lines ls (AList.update (dandiset_id e, asset_id e) e cache)"

definition load_label_cache :: "'d line list option \<Rightarrow> error + 'd cache" where
  "load_label_cache fs = (case fs of None \<Rightarrow> Inr [] | Some ls \<Rightarrow> load_lines ls [])"

text \<open>\<^verbatim>\<open>append_label_cache\<close>: mode \<^verbatim>\<open>"a"\<close> creates the file when it is missing.\<close>

definition append_label_cache :: "'d entry \<Rightarrow> 'd line list option \<Rightarrow> 'd line list option" where
  "append_label_cache e fs =
     (case fs of None \<Rightarrow> Some [Record e] | Some ls \<Rightarrow> Some (ls @ [Record e]))"

section \<open>Index regeneration in the synchronizer\<close>

text \<open>\<^verbatim>\<open>rescan_all_subjects.py\<close>, lines 121-152, over the in-memory cache.\<close>

definition rescan_group :: "'d cache \<Rightarrow> ('d \<times> (string \<times> 'd entry list) list) list" where
  "rescan_group cache =
     foldl (\<lambda>dandisets ((ds_id, _), e). dd_append2 ds_id (extract_subject (path e)) e dandisets)
       [] cache"

definition rescan_pick ::
  "(string \<times> 'd entry list) list \<Rightarrow> index_asset list \<Rightarrow> string \<Rightarrow> error + index_asset list" where
  "rescan_pick subjects assets subj =
     (case sort_key path (dd_get [] subjects subj) of
        [] \<Rightarrow> Inl IndexError
      | e # _ \<Rightarrow> Inr (assets @ [rescan_record e]))"

definition rescan_dandiset ::
  "('d::linorder \<times> (string \<times> 'd entry list) list) list \<Rightarrow> 'd index \<Rightarrow> 'd \<Rightarrow> error + 'd index" where
  "rescan_dandiset dandisets result did =
     (let subjects = dd_get [] dandisets did
      in case for_each (rescan_pick subjects) (sort (map fst subjects)) [] of
           Inl err \<Rightarrow> Inl err
         | Inr assets \<Rightarrow> Inr (AList.update did assets result))"

definition regenerate :: "('d::linorder) cache \<Rightarrow> error + 'd index" where
  "regenerate cache =
     (let dandisets = rescan_group cache
      in for_each (rescan_dandiset dandisets) (sort (map fst dandisets)) [])"

section \<open>The synchronizer\<close>

text \<open>
  \<^verbatim>\<open>main\<close> of \<^verbatim>\<open>rescan_all_subjects.py\<close>. The state that the iterations change is the
  in-memory \<^verbatim>\<open>label_cache\<close>, the log file that \<^verbatim>\<open>append_label_cache\<close> writes, and the
  counter \<^verbatim>\<open>total_new\<close>. The field \<open>attempts\<close> is the trace of the calls of
  \<^verbatim>\<open>process_asset\<close>, in call order: it records the only effect on the labeling
  collaborator. The collaborators are parameters: \<open>get_assets\<close> is
  \<^verbatim>\<open>get_nwb_assets_paged(ds_id, max_assets=None)\<close> and \<open>process_asset\<close> is
  \<^verbatim>\<open>process_asset(ds_id, asset, lookups, apply=False)\<close>; each returns \<open>Inl\<close> when it
  raises. Loading the Allen mapping and printing are not modelled.
\<close>

record 'd sync_state =
  label_cache :: "'d cache"
  log_file :: "'d line list option"
  total_new :: nat
  attempts :: "('d \<times> asset) list"

text \<open>
  Lines 88-113, the body of the loop over the subjects. \<^verbatim>\<open>assets[0]\<close> stands before the
  \<^verbatim>\<open>try\<close>, so an empty group would end the run; inside the \<^verbatim>\<open>try\<close> every exception
  is caught and the loop goes on. The entries are typed records here, so \<^verbatim>\<open>result["status"]\<close>
  cannot fail after the cache has been written.
\<close>

definition sync_subject ::
  "('d \<Rightarrow> asset \<Rightarrow> error + 'd entry) \<Rightarrow> 'd \<Rightarrow> (string \<times> asset list) list \<Rightarrow>
   'd sync_state \<Rightarrow> string \<Rightarrow> error + 'd sync_state" where
  "sync_subject process_asset ds_id subject_assets st subj =
     (let assets = sort_key listed_path (dd_get [] subject_assets subj);
          have_cached =
            list_ex (\<lambda>a. (ds_id, listed_asset_id a) \<in> fst ` set (label_cache st)) assets
      in if have_cached then Inr st
         else (case assets of
                 [] \<Rightarrow> Inl IndexError
               | a # _ \<Rightarrow>
                   (case process_asset ds_id a of
                      Inl exc \<Rightarrow> Inr (st\<lparr>attempts := attempts st @ [(ds_id, a)]\<rparr>)
                    | Inr result \<Rightarrow>
                        Inr (st\<lparr>label_cache :=
                                   AList.update (ds_id, listed_asset_id a) result (label_cache st),
                                 log_file := append_label_cache result (log_file st),
                                 total_new := total_new st + 1,
                                 attempts := attempts st @ [(ds_id, a)]\<rparr>))))"

text \<open>Lines 79-82: the listing grouped by subject.\<close>

definition group_assets :: "asset list \<Rightarrow> (string \<times> asset list) list" where
  "group_assets all_assets =
     foldl (\<lambda>subject_assets a. dd_append (extract_subject (listed_path a)) a subject_assets)
       [] all_assets"

text \<open>Lines 71-113, the body of the loop over the dandisets. A failing listing ends the run.\<close>

definition sync_dandiset ::
  "('d \<Rightarrow> error + asset list) \<Rightarrow> ('d \<Rightarrow> asset \<Rightarrow> error + 'd entry) \<Rightarrow>
   'd sync_state \<Rightarrow> 'd \<Rightarrow> error + 'd sync_state" where
  "sync_dandiset get_assets process_asset st ds_id =
     (case get_assets ds_id of
        Inl exc \<Rightarrow> Inl exc
      | Inr all_assets \<Rightarrow>
          (let subject_assets = group_assets all_assets
           in for_each (sync_subject process_asset ds_id subject_assets)
                (sort (map fst subject_assets)) st))"

definition rescan_main ::
  "('d::linorder \<Rightarrow> error + asset list) \<Rightarrow> ('d \<Rightarrow> asset \<Rightarrow> error + 'd entry) \<Rightarrow>
   'd line list option \<Rightarrow> error + 'd sync_state \<times> 'd index" where
  "rescan_main get_assets process_asset fs =
     (case load_label_cache fs of
        Inl exc \<Rightarrow> Inl exc
      | Inr cache \<Rightarrow>
          (let dandiset_ids = sort (remdups (map (\<lambda>k. fst k) (map fst cache)))
           in case for_each (sync_dandiset get_assets process_asset) dandiset_ids
                     \<lparr>label_cache = cache, log_file = fs, total_new = 0, attempts = []\<rparr> of
                Inl exc \<Rightarrow> Inl exc
              | Inr st \<Rightarrow>
                  (case regenerate (label_cache st) of
                     Inl exc \<Rightarrow> Inl exc
                   | Inr result \<Rightarrow> Inr (st, result))))"

section \<open>The standalone regeneration script\<close>

text \<open>
  \<^verbatim>\<open>main\<close> of \<^verbatim>\<open>generate_dandiset_assets.py\<close>. It opens the log without testing that it
  exists, and hands every line to \<^verbatim>\<open>json.loads\<close>, blank or not.
\<close>

fun gen_read ::
  "'d line list \<Rightarrow> ('d \<times> (string \<times> index_asset list) list) list \<Rightarrow>
   error + ('d \<times> (string \<times> index_asset list) list) list" where
  "gen_read [] dandisets = Inr dandisets"
| "gen_read (Blank # ls) dandisets = Inl MalformedRecordError"
| "gen_read (Malformed # ls) dandisets = Inl MalformedRecordError"
| "gen_read (Record e # ls) dandisets =
     gen_read ls
       (dd_append2 (dandiset_id e) (gen_extract_subject (path e)) (gen_record e) dandisets)"

definition gen_pick ::
  "(string \<times> index_asset list) list \<Rightarrow> index_asset list \<Rightarrow> string \<Rightarrow> error + index_asset list" where
  "gen_pick subjects assets subj =
     (case sort_key out_path (dd_get [] subjects subj) of
        [] \<Rightarrow> Inl IndexError
      | a # _ \<Rightarrow> Inr (assets @ [a]))"

definition gen_dandiset ::
  "('d::linorder \<times> (string \<times> index_asset list) list) list \<Rightarrow> 'd index \<Rightarrow> 'd \<Rightarrow> error + 'd index" where
  "gen_dandiset dandisets result did =
     (let subjects = dd_get [] dandisets did
      in case for_each (gen_pick subjects) (sort (map fst subjects)) [] of
           Inl err \<Rightarrow> Inl err
         | Inr assets \<Rightarrow> Inr (AList.update did assets result))"

definition gen_main :: "('d::linorder) line list option \<Rightarrow> error + 'd index" where
  "gen_main fs =
     (case fs of
        None \<Rightarrow> Inl FileNotFoundError
      | Some ls \<Rightarrow>
          (case gen_read ls [] of
             Inl err \<Rightarrow> Inl err
           | Inr dandisets \<Rightarrow> for_each (gen_dandiset dandisets) (sort (map fst dandisets)) []))"

section \<open>The index in the words of the specification\<close>

text \<open>
  The entries a script groups, each with the dandiset it is filed under: the key's first
  component for the in-memory cache, the entry's own \<open>dandiset_id\<close> for the lines of the log.
\<close>

definition cache_pairs :: "'d cache \<Rightarrow> ('d \<times> 'd entry) list" where
  "cache_pairs cache = map (\<lambda>((ds_id, _), e). (ds_id, e)) cache"

definition log_pairs :: "'d entry list \<Rightarrow> ('d \<times> 'd entry) list" where
  "log_pairs es = map (\<lambda>e. (dandiset_id e, e)) es"

text \<open>
  The group of a dandiset and a subject, the sorted subjects of a dandiset, the sorted
  dandisets, the entry of smallest path in a group (the first such entry, as Python's stable
  \<^verbatim>\<open>sorted\<close> followed by \<^verbatim>\<open>[0]\<close> gives), and the index these determine.
\<close>

definition members :: "('d \<times> 'd entry) list \<Rightarrow> 'd \<Rightarrow> string \<Rightarrow> 'd entry list" where
  "members xs did subj =
     map snd (filter (\<lambda>(d, e). d = did \<and> extract_subject (path e) = subj) xs)"

definition subjects_of :: "('d \<times> 'd entry) list \<Rightarrow> 'd \<Rightarrow> string list" where
  "subjects_of xs did =
     sort (remdups (map (\<lambda>(d, e). extract_subject (path e)) (filter (\<lambda>(d, e). d = did) xs)))"

definition dandisets_of :: "('d::linorder \<times> 'd entry) list \<Rightarrow> 'd list" where
  "dandisets_of xs = sort (remdups (map fst xs))"

definition canonical :: "'d entry list \<Rightarrow> 'd entry" where
  "canonical es = hd (sort_key path es)"

definition spec_index :: "('d entry \<Rightarrow> index_asset) \<Rightarrow> ('d::linorder \<times> 'd entry) list \<Rightarrow> 'd index" where
  "spec_index mk xs =
     map (\<lambda>did. (did, map (\<lambda>subj. mk (canonical (members xs did subj))) (subjects_of xs did)))
       (dandisets_of xs)"

text \<open>
  An index over grouped entries is ascending when its dandisets are strictly ascending and
  are those of the entries, and under each dandiset the subjects of the records are strictly
  ascending and are those of the dandiset's entries: one record for each subject.
\<close>

definition ascending_index :: "('d::linorder \<times> 'd entry) list \<Rightarrow> 'd index \<Rightarrow> bool" where
  "ascending_index xs idx \<longleftrightarrow>
     sorted_wrt (<) (map fst idx) \<and> set (map fst idx) = fst ` set xs
     \<and> (\<forall>(did, recs) \<in> set idx.
          sorted_wrt (<) (map (\<lambda>r. extract_subject (out_path r)) recs)
          \<and> set (map (\<lambda>r. extract_subject (out_path r)) recs)
              = (\<lambda>x. extract_subject (path (snd x))) ` {x \<in> set xs. fst x = did})"

section \<open>A line as each reader sees it\<close>

text \<open>
  The two scripts do not hand the same text to \<^verbatim>\<open>json.loads\<close>. \<^verbatim>\<open>load_label_cache\<close>
  parses \<^verbatim>\<open>line.strip()\<close>; the standalone script parses the line as it is, and then reads
  \<^verbatim>\<open>dandiset_id\<close>, \<^verbatim>\<open>asset_id\<close>, \<^verbatim>\<open>path\<close> and, for every match of the line,
  \<^verbatim>\<open>id\<close>, \<^verbatim>\<open>acronym\<close> and \<^verbatim>\<open>name\<close>. \<^verbatim>\<open>str.strip\<close> removes characters that JSON
  does not allow around a value (a form feed, a vertical tab, a no-break space), so one line
  of text can be an entry for the first reader and raise in the second. A \<open>log_line\<close> pairs
  the two classifications of one line of text: \<open>stripped\<close> is what the synchronizer's reader
  makes of it, \<open>unstripped\<close> what the standalone script makes of it. Both readers accept a
  line when both make the same entry of it.
\<close>

record 'd log_line =
  stripped :: "'d line"
  unstripped :: "'d line"

definition accepted_by_both :: "'d log_line \<Rightarrow> bool" where
  "accepted_by_both r =
     (case stripped r of Record e \<Rightarrow> unstripped r = Record e | Blank \<Rightarrow> False | Malformed \<Rightarrow> False)"

section \<open>Auxiliary functions of the proofs\<close>

text \<open>
  The records whose identifier is neither in \<open>seen\<close> nor carried by an earlier record:
  the recursive reading of the two deduplication passes.
\<close>

fun unseen :: "int set \<Rightarrow> region list \<Rightarrow> region list" where
  "unseen seen [] = []"
| "unseen seen (r # rs) =
     (if region_id r \<in> seen then unseen seen rs else r # unseen (insert (region_id r) seen) rs)"

text \<open>The entries of the lines that parse, in file order, and the key of an entry.\<close>

fun records :: "'d line list \<Rightarrow> 'd entry list" where
  "records [] = []"
| "records (Record e # ls) = e # records ls"
| "records (Blank # ls) = records ls"
| "records (Malformed # ls) = records ls"

definition entry_key :: "'d entry \<Rightarrow> 'd \<times> string" where
  "entry_key e = (dandiset_id e, asset_id e)"

text \<open>
  What a sequence of \<^verbatim>\<open>process_asset\<close> calls leaves behind: \<open>labelled\<close> is the list of
  the cache entries of the calls that returned, under the key the synchronizer stores them
  at (a call that raised contributes nothing); \<open>record_calls\<close> is the state after these
  calls; \<open>subject_calls\<close> is the call the loop body makes for one subject (none when an
  asset of the subject is cached); \<open>uncached\<close> is the negation of \<^verbatim>\<open>have_cached\<close>;
  \<open>initial_state\<close> is the state in which \<^verbatim>\<open>main\<close> enters the loop over the dandisets.
\<close>

definition labelled :: "('d \<Rightarrow> asset \<Rightarrow> error + 'd entry) \<Rightarrow> ('d \<times> asset) list \<Rightarrow> 'd cache" where
  "labelled process_asset calls =
     concat (map (\<lambda>(d, a). case process_asset d a of
                               Inl exc \<Rightarrow> []
                             | Inr result \<Rightarrow> [((d, listed_asset_id a), result)]) calls)"

definition record_calls ::
  "('d \<Rightarrow> asset \<Rightarrow> error + 'd entry) \<Rightarrow> 'd sync_state \<Rightarrow> ('d \<times> asset) list \<Rightarrow> 'd sync_state" where
  "record_calls process_asset st calls =
     st\<lparr>label_cache := label_cache st @ labelled process_asset calls,
        log_file := foldl (\<lambda>fs kv. append_label_cache (snd kv) fs) (log_file st)
                      (labelled process_asset calls),
        total_new := total_new st + length (labelled process_asset calls),
        attempts := attempts st @ calls\<rparr>"

definition subject_calls ::
  "'d \<Rightarrow> asset list \<Rightarrow> 'd sync_state \<Rightarrow> string \<Rightarrow> ('d \<times> asset) list" where
  "subject_calls ds_id all_assets st subj =
     (let assets = filter (\<lambda>a. extract_subject (listed_path a) = subj) all_assets
      in if list_ex (\<lambda>a. (ds_id, listed_asset_id a) \<in> fst ` set (label_cache st)) assets then []
         else [(ds_id, hd (sort_key listed_path assets))])"

definition uncached :: "'d \<Rightarrow> asset list \<Rightarrow> 'd sync_state \<Rightarrow> string \<Rightarrow> bool" where
  "uncached ds_id all_assets st subj \<longleftrightarrow>
     \<not> list_ex (\<lambda>a. (ds_id, listed_asset_id a) \<in> fst ` set (label_cache st))
         (filter (\<lambda>a. extract_subject (listed_path a) = subj) all_assets)"

definition initial_state :: "'d cache \<Rightarrow> 'd line list option \<Rightarrow> 'd sync_state" where
  "initial_state cache fs = \<lparr>label_cache = cache, log_file = fs, total_new = 0, attempts = []\<rparr>"

section \<open>Example inputs\<close>

text \<open>
  Entries: two of one subject, as in the specification's example of the canonical selection;
  two more that make a cache of two dandisets and three subjects; two lines with the same key
  and path that differ in their regions.
\<close>

definition ex_ctx :: region where
  "ex_ctx = \<lparr>region_id = 315, acronym = ''CTX'', name = ''Cortex''\<rparr>"

definition ex_b :: "int entry" where
  "ex_b = \<lparr>dandiset_id = 1, asset_id = ''y'', path = ''sub-01/b.nwb'', status = ''ok'',
            matched_locations = Some [(''l'', [ex_ctx])]\<rparr>"

definition ex_a :: "int entry" where
  "ex_a = \<lparr>dandiset_id = 1, asset_id = ''x'', path = ''sub-01/a.nwb'', status = ''ok'',
            matched_locations = None\<rparr>"

definition ex_cache :: "int cache" where
  "ex_cache = [((1, ''y''), ex_b), ((1, ''x''), ex_a)]"

definition ex_q :: "int entry" where
  "ex_q = \<lparr>dandiset_id = 1, asset_id = ''q'', path = ''sub-00_ses-1.nwb'', status = ''ok'',
            matched_locations = None\<rparr>"

definition ex_z :: "int entry" where
  "ex_z = \<lparr>dandiset_id = 2, asset_id = ''z'', path = ''sub-02/a.nwb'', status = ''ok'',
            matched_locations = None\<rparr>"

definition ex_cache2 :: "int cache" where
  "ex_cache2 = [((2, ''z''), ex_z), ((1, ''y''), ex_b), ((1, ''q''), ex_q), ((1, ''x''), ex_a)]"

definition ex_dup_old :: "int entry" where
  "ex_dup_old = \<lparr>dandiset_id = 1, asset_id = ''x'', path = ''sub-01/a.nwb'', status = ''ok'',
                  matched_locations = Some [(''l'', [ex_ctx])]\<rparr>"

definition ex_dup_new :: "int entry" where
  "ex_dup_new = \<lparr>dandiset_id = 1, asset_id = ''x'', path = ''sub-01/a.nwb'', status = ''ok'',
                  matched_locations = Some []\<rparr>"

definition ex_dup_log :: "int line list" where
  "ex_dup_log = [Record ex_dup_old, Record ex_dup_new]"

text \<open>The matched locations of the specification's example of region deduplication.\<close>

definition ex_locations :: locations where
  "ex_locations =
     [(''loc1'', [\<lparr>region_id = 8, acronym = ''grey'', name = ''Basic cell groups''\<rparr>,
                  \<lparr>region_id = 315, acronym = ''CTX'', name = ''Cortex''\<rparr>]),
      (''loc2'', [\<lparr>region_id = 315, acronym = ''CTX'', name = ''Cortex''\<rparr>,
                  \<lparr>region_id = 512, acronym = ''CB'', name = ''Cerebellum''\<rparr>])]"

text \<open>
  Synchronizer runs: a listing with the subjects A and B and a cache that holds one entry of
  subject A; a cache whose only entry is an asset of subject B that the listing no longer
  contains; a log of one entry of subject C; listing collaborators, one of which returns no
  asset; labeling collaborators that succeed, fail, or fail for subject B only.
\<close>

definition ex_listed_a :: asset where
  "ex_listed_a = \<lparr>listed_asset_id = ''a1'', listed_path = ''sub-A/x.nwb''\<rparr>"

definition ex_listed_b1 :: asset where
  "ex_listed_b1 = \<lparr>listed_asset_id = ''b1'', listed_path = ''sub-B/y.nwb''\<rparr>"

definition ex_listed_b2 :: asset where
  "ex_listed_b2 = \<lparr>listed_asset_id = ''b2'', listed_path = ''sub-B/x.nwb''\<rparr>"

definition ex_listing :: "asset list" where
  "ex_listing = [ex_listed_b1, ex_listed_a, ex_listed_b2]"

definition ex_entry_a :: "int entry" where
  "ex_entry_a = \<lparr>dandiset_id = 1, asset_id = ''a1'', path = ''sub-A/x.nwb'', status = ''error'',
                  matched_locations = None\<rparr>"

definition ex_state :: "int sync_state" where
  "ex_state = \<lparr>label_cache = [((1, ''a1''), ex_entry_a)], log_file = Some [Record ex_entry_a],
                total_new = 0, attempts = []\<rparr>"

definition ex_old :: "int entry" where
  "ex_old = \<lparr>dandiset_id = 1, asset_id = ''old'', path = ''sub-B/x.nwb'', status = ''ok'',
              matched_locations = Some [(''l'', [ex_ctx])]\<rparr>"

definition ex_stale :: "int sync_state" where
  "ex_stale = \<lparr>label_cache = [((1, ''old''), ex_old)], log_file = Some [Record ex_old],
                total_new = 0, attempts = []\<rparr>"

definition ex_entry_c :: "int entry" where
  "ex_entry_c = \<lparr>dandiset_id = 1, asset_id = ''c1'', path = ''sub-C_ses-1.nwb'', status = ''ok'',
                  matched_locations = None\<rparr>"

definition ex_fs :: "int line list option" where
  "ex_fs = Some [Record ex_entry_c]"

definition ex_get_assets :: "int \<Rightarrow> error + asset list" where
  "ex_get_assets d = (if d = 1 then Inr ex_listing else Inl ListingError)"

definition ex_get_b :: "int \<Rightarrow> error + asset list" where
  "ex_get_b d = (if d = 1 then Inr [ex_listed_b2] else Inl ListingError)"

definition ex_no_assets :: "int \<Rightarrow> error + asset list" where
  "ex_no_assets d = Inr []"

definition ex_process_ok :: "int \<Rightarrow> asset \<Rightarrow> error + int entry" where
  "ex_process_ok d a =
     Inr \<lparr>dandiset_id = d, asset_id = listed_asset_id a, path = listed_path a, status = ''ok'',
          matched_locations = Some []\<rparr>"

definition ex_process_fail :: "int \<Rightarrow> asset \<Rightarrow> error + int entry" where
  "ex_process_fail d a = Inl LabelingError"

definition ex_process_b_fails :: "int \<Rightarrow> asset \<Rightarrow> error + int entry" where
  "ex_process_b_fails d a =
     (if extract_subject (listed_path a) = ''sub-B'' then Inl LabelingError else ex_process_ok d a)"

text \<open>
  A log of two lines that both readers accept, and a line that starts with a form feed: an
  entry once stripped, not JSON as it is.
\<close>

definition ex_both_log :: "int log_line list" where
  "ex_both_log = [\<lparr>stripped = Record ex_b, unstripped = Record ex_b\<rparr>,
                  \<lparr>stripped = Record ex_a, unstripped = Record ex_a\<rparr>]"

definition ex_form_feed :: "int log_line" where
  "ex_form_feed = \<lparr>stripped = Record ex_a, unstripped = Malformed\<rparr>"

section \<open>Properties of subject extraction\<close>

lemma py_split_not_Nil: "py_split sep s \<noteq> []"
  by (induction s) (auto split: list.splits)

lemma hd_py_split: "hd (py_split sep s) = takeWhile (\<lambda>c. c \<noteq> sep) s"
proof (induction s)
  case Nil
  show ?case by simp
next
  case (Cons c cs)
  show ?case
  proof (cases "py_split sep cs")
    case Nil
    with py_split_not_Nil show ?thesis by blast
  next
    case (Cons p ps)
    with Cons.IH show ?thesis by auto
  qed
qed

lemma length_py_split: "length (py_split sep s) = Suc (length (filter (\<lambda>c. c = sep) s))"
proof (induction s)
  case Nil
  show ?case by simp
next
  case (Cons c cs)
  show ?case
  proof (cases "py_split sep cs")
    case Nil
    with py_split_not_Nil show ?thesis by blast
  next
    case (Cons p ps)
    with Cons.IH show ?thesis by auto
  qed
qed

lemma py_split_several: "1 < length (py_split sep s) \<longleftrightarrow> sep \<in> set s"
proof -
  have "0 < length (filter (\<lambda>c. c = sep) s) \<longleftrightarrow> sep \<in> set s"
    by (induction s) auto
  then show ?thesis by (simp add: length_py_split)
qed

lemma extract_subject_eq:
  "extract_subject p =
     (if CHR ''/'' \<in> set p then takeWhile (\<lambda>c. c \<noteq> CHR ''/'') p
      else takeWhile (\<lambda>c. c \<noteq> CHR ''_'') p)"
  unfolding extract_subject_def Let_def by (simp only: py_split_several hd_py_split)

lemma gen_extract_subject_eq: "gen_extract_subject = extract_subject"
  by (rule ext) (simp only: gen_extract_subject_def extract_subject_def)

text \<open>
  Claim C7. For every path, the subject key is the first \<^verbatim>\<open>/\<close>-separated segment when the
  path contains \<^verbatim>\<open>/\<close>, and otherwise the part before the first underscore (the whole path
  when there is none). \<^verbatim>\<open>sub-01/sample.nwb\<close> and \<^verbatim>\<open>sub-01_ses-02.nwb\<close> both give
  \<^verbatim>\<open>sub-01\<close>. The copies of the function in the two scripts are the same function, and
  it is the key under which the standalone script files a line of the log, the synchronizer
  files a listed asset for gap detection, and the index build files a cache entry.
\<close>

theorem extract_subject_segments:
  "extract_subject p =
     (if CHR ''/'' \<in> set p then takeWhile (\<lambda>c. c \<noteq> CHR ''/'') p
      else if CHR ''_'' \<in> set p then takeWhile (\<lambda>c. c \<noteq> CHR ''_'') p
      else p)
   \<and> extract_subject ''sub-01/sample.nwb'' = ''sub-01''
   \<and> extract_subject ''sub-01_ses-02.nwb'' = ''sub-01''
   \<and> gen_extract_subject p = extract_subject p
   \<and> gen_read [Record e] [] = Inr [(dandiset_id e, [(extract_subject (path e), [gen_record e])])]
   \<and> group_assets [a] = [(extract_subject (listed_path a), [a])]
   \<and> rescan_group [((ds_id, i), e)] = [(ds_id, [(extract_subject (path e), [e])])]"
proof -
  have a: "CHR ''_'' \<notin> set p \<Longrightarrow> takeWhile (\<lambda>c. c \<noteq> CHR ''_'') p = p"
    by (rule takeWhile_eq_all_conv [THEN iffD2]) auto
  have "extract_subject p =
     (if CHR ''/'' \<in> set p then takeWhile (\<lambda>c. c \<noteq> CHR ''/'') p
      else if CHR ''_'' \<in> set p then takeWhile (\<lambda>c. c \<noteq> CHR ''_'') p
      else p)"
    using a by (simp add: extract_subject_eq)
  moreover have "extract_subject ''sub-01/sample.nwb'' = ''sub-01''"
    by (simp add: extract_subject_eq)
  moreover have "extract_subject ''sub-01_ses-02.nwb'' = ''sub-01''"
    by (simp add: extract_subject_eq)
  moreover have "gen_extract_subject p = extract_subject p"
    by (simp only: gen_extract_subject_eq)
  moreover have "gen_read [Record e] [] =
      Inr [(dandiset_id e, [(extract_subject (path e), [gen_record e])])]"
    by (simp add: dd_append2_def dd_append_def gen_extract_subject_eq)
  moreover have "group_assets [a] = [(extract_subject (listed_path a), [a])]"
    by (simp add: group_assets_def dd_append_def)
  moreover have "rescan_group [((ds_id, i), e)] = [(ds_id, [(extract_subject (path e), [e])])]"
    by (simp add: rescan_group_def dd_append2_def dd_append_def)
  ultimately show ?thesis by (intro conjI)
qed

section \<open>Region lists are filtered and deduplicated\<close>

lemma region_of_id: "region_of m = m"
  by (simp add: region_of_def)

lemma foldl_nested:
  "foldl (\<lambda>st (k, ms). foldl f st ms) st locs = foldl f st (concat (map snd locs))"
  by (induction locs arbitrary: st) auto

lemma in_FILTER_IDS: "region_id m \<notin> FILTER_IDS \<longleftrightarrow> region_id m \<noteq> 8 \<and> region_id m \<noteq> 997"
  by (auto simp: FILTER_IDS_def)

lemma gen_keep_foldl:
  "foldl gen_keep regs ms = regs @ filter (\<lambda>m. region_id m \<noteq> 8 \<and> region_id m \<noteq> 997) ms"
  by (induction ms arbitrary: regs) (auto simp: gen_keep_def region_of_id in_FILTER_IDS)

lemma gen_dedup_foldl:
  "fst (foldl gen_dedup (u, seen) rs) = u @ unseen seen rs"
  by (induction rs arbitrary: u seen) (auto simp: gen_dedup_def)

lemma rescan_keep_foldl:
  "fst (foldl rescan_keep (u, seen) ms) =
     u @ unseen seen (filter (\<lambda>m. region_id m \<noteq> 8 \<and> region_id m \<noteq> 997) ms)"
  by (induction ms arbitrary: u seen) (auto simp: rescan_keep_def region_of_id in_FILTER_IDS)

lemma unseen_index:
  "unseen seen rs =
     map (\<lambda>i. rs ! i)
       (filter (\<lambda>i. region_id (rs ! i) \<notin> seen \<union> region_id ` set (take i rs)) [0..<length rs])"
proof (induction rs arbitrary: seen)
  case Nil
  show ?case by simp
next
  case (Cons r rs)
  have upt: "[0..<length (r # rs)] = 0 # map Suc [0..<length rs]"
    by (simp add: upt_conv_Cons map_Suc_upt del: upt_Suc)
  show ?case
  proof (cases "region_id r \<in> seen")
    case True
    then have ne: "\<And>a. a \<notin> seen \<Longrightarrow> a \<noteq> region_id r" by auto
    from True show ?thesis
      unfolding upt using Cons.IH [of seen]
      by (simp add: filter_map comp_def ne cong: conj_cong)
  next
    case False
    then show ?thesis
      unfolding upt using Cons.IH [of "insert (region_id r) seen"]
      by (simp add: filter_map comp_def conj_ac)
  qed
qed

lemma first_seen_unseen: "first_seen rs = unseen {} rs"
  by (simp add: first_seen_def unseen_index)

lemma unseen_ids: "region_id ` set (unseen seen rs) = region_id ` set rs - seen"
  by (induction rs arbitrary: seen) auto

lemma unseen_distinct: "distinct (map region_id (unseen seen rs))"
proof (induction rs arbitrary: seen)
  case Nil
  show ?case by simp
next
  case (Cons r rs)
  have "region_id r \<notin> region_id ` set (unseen (insert (region_id r) seen) rs)"
    by (simp add: unseen_ids)
  with Cons.IH show ?case by simp
qed

lemma gen_filtered_eq:
  "gen_filtered matched =
     filter (\<lambda>m. region_id m \<noteq> 8 \<and> region_id m \<noteq> 997) (flat_matches matched)"
proof -
  have "gen_filtered matched = foldl gen_keep [] (concat (map snd matched))"
    by (simp only: gen_filtered_def foldl_nested)
  then show ?thesis by (simp add: gen_keep_foldl flat_matches_def)
qed

lemma rescan_regions_eq: "rescan_regions matched = spec_regions matched"
proof -
  have "rescan_regions matched = fst (foldl rescan_keep ([], {}) (concat (map snd matched)))"
    by (simp only: rescan_regions_def foldl_nested)
  then show ?thesis
    by (simp add: rescan_keep_foldl spec_regions_def flat_matches_def first_seen_unseen)
qed

lemma gen_regions_eq: "gen_regions matched = spec_regions matched"
  by (simp add: gen_regions_def gen_filtered_eq gen_dedup_foldl spec_regions_def first_seen_unseen)

text \<open>
  Claim C1. For every cache entry, the \<open>regions\<close> of the record that either script
  emits for it are the region-match records of its \<open>matched_locations\<close>, in location-key
  iteration order and then match order, without the identifiers 8 and 997, each
  identifier kept at its first occurrence only: no identifier occurs twice, and the
  identifiers present are exactly those of the matches other than 8 and 997.
\<close>

theorem regions_first_seen:
  "regions (rescan_record e) = spec_regions (matched_of e)
   \<and> regions (gen_record e) = spec_regions (matched_of e)
   \<and> distinct (map region_id (spec_regions (matched_of e)))
   \<and> region_id ` set (spec_regions (matched_of e)) =
       region_id ` set (flat_matches (matched_of e)) - {8, 997}"
proof -
  let ?ok = "\<lambda>m::region. region_id m \<noteq> 8 \<and> region_id m \<noteq> 997"
  have a: "regions (rescan_record e) = spec_regions (matched_of e)"
    by (simp add: rescan_record_def rescan_regions_eq)
  have b: "regions (gen_record e) = spec_regions (matched_of e)"
    by (simp add: gen_record_def gen_regions_eq)
  have c: "distinct (map region_id (spec_regions (matched_of e)))"
    by (simp add: spec_regions_def first_seen_unseen unseen_distinct)
  have d: "region_id ` set (spec_regions (matched_of e)) =
       region_id ` set (flat_matches (matched_of e)) - {8, 997}"
    by (auto simp: spec_regions_def first_seen_unseen unseen_ids)
  from a b c d show ?thesis by blast
qed

lemma regions_example:
  "rescan_regions ex_locations =
     [\<lparr>region_id = 315, acronym = ''CTX'', name = ''Cortex''\<rparr>,
      \<lparr>region_id = 512, acronym = ''CB'', name = ''Cerebellum''\<rparr>]"
  "gen_regions ex_locations = rescan_regions ex_locations"
  by code_simp+

section \<open>Grouping tables\<close>

subsection \<open>defaultdict\<close>

lemma dd_get_modify:
  "dd_get dflt (dd_modify k f dflt d) k' = (if k' = k then f (dd_get dflt d k) else dd_get dflt d k')"
  by (induction d) (auto simp: dd_get_def)

lemma keys_dd_modify:
  "map fst (dd_modify k f dflt d) = (if k \<in> fst ` set d then map fst d else map fst d @ [k])"
proof (induction d)
  case Nil
  show ?case by simp
next
  case (Cons p d)
  obtain k' v where p: "p = (k', v)" by (cases p)
  show ?case
  proof (cases "k' = k")
    case True
    with p show ?thesis by simp
  next
    case False
    with p Cons.IH show ?thesis by (cases "k \<in> fst ` set d") auto
  qed
qed

lemma set_keys_dd_modify: "fst ` set (dd_modify k f dflt d) = insert k (fst ` set d)"
proof -
  have "set (map fst (dd_modify k f dflt d)) = insert k (fst ` set d)"
    by (simp only: keys_dd_modify) auto
  then show ?thesis by simp
qed

lemma distinct_keys_dd_modify:
  "distinct (map fst d) \<Longrightarrow> distinct (map fst (dd_modify k f dflt d))"
  by (auto simp: keys_dd_modify)

lemma dd_get_Nil: "dd_get dflt [] k = dflt"
  by (simp add: dd_get_def)

lemma dd_get_absent: "k \<notin> fst ` set d \<Longrightarrow> dd_get dflt d k = dflt"
  by (induction d) (auto simp: dd_get_def)

subsection \<open>Grouping\<close>

lemma group1_get:
  "dd_get [] (foldl (\<lambda>t x. dd_append (sf x) (vf x) t) t xs) s =
     dd_get [] t s @ map vf (filter (\<lambda>x. sf x = s) xs)"
  by (induction xs arbitrary: t) (auto simp: dd_append_def dd_get_modify)

lemma group1_keys:
  "fst ` set (foldl (\<lambda>t x. dd_append (sf x) (vf x) t) t xs) = fst ` set t \<union> sf ` set xs"
  by (induction xs arbitrary: t) (auto simp: dd_append_def set_keys_dd_modify)

lemma group1_distinct:
  "distinct (map fst t) \<Longrightarrow> distinct (map fst (foldl (\<lambda>t x. dd_append (sf x) (vf x) t) t xs))"
  by (induction xs arbitrary: t) (auto simp: dd_append_def distinct_keys_dd_modify)

lemma group2_get:
  "dd_get [] (dd_get [] (foldl (\<lambda>t x. dd_append2 (kf x) (sf x) (vf x) t) t xs) d) s =
     dd_get [] (dd_get [] t d) s @ map vf (filter (\<lambda>x. kf x = d \<and> sf x = s) xs)"
  by (induction xs arbitrary: t) (auto simp: dd_append2_def dd_append_def dd_get_modify)

lemma group2_keys:
  "fst ` set (foldl (\<lambda>t x. dd_append2 (kf x) (sf x) (vf x) t) t xs) = fst ` set t \<union> kf ` set xs"
  by (induction xs arbitrary: t) (auto simp: dd_append2_def set_keys_dd_modify)

lemma group2_distinct:
  "distinct (map fst t) \<Longrightarrow>
   distinct (map fst (foldl (\<lambda>t x. dd_append2 (kf x) (sf x) (vf x) t) t xs))"
  by (induction xs arbitrary: t) (auto simp: dd_append2_def distinct_keys_dd_modify)

lemma group2_inner_keys:
  "fst ` set (dd_get [] (foldl (\<lambda>t x. dd_append2 (kf x) (sf x) (vf x) t) t xs) d) =
     fst ` set (dd_get [] t d) \<union> sf ` {x \<in> set xs. kf x = d}"
  by (induction xs arbitrary: t)
     (auto simp: dd_append2_def dd_append_def dd_get_modify set_keys_dd_modify)

lemma group2_inner_distinct:
  "distinct (map fst (dd_get [] t d)) \<Longrightarrow>
   distinct (map fst (dd_get [] (foldl (\<lambda>t x. dd_append2 (kf x) (sf x) (vf x) t) t xs) d))"
proof (induction xs arbitrary: t)
  case Nil
  then show ?case by simp
next
  case (Cons x xs)
  have "distinct (map fst (dd_get [] (dd_append2 (kf x) (sf x) (vf x) t) d))"
    using Cons.prems
    by (auto simp: dd_append2_def dd_append_def dd_get_modify distinct_keys_dd_modify dd_get_Nil)
  from Cons.IH [OF this] show ?case by simp
qed

subsection \<open>Iterations that cannot fail\<close>

lemma for_each_append:
  "(\<And>s acc. s \<in> set keys \<Longrightarrow> pick acc s = Inr (acc @ [g s])) \<Longrightarrow>
   for_each pick keys acc = Inr (acc @ map g keys)"
  by (induction keys arbitrary: acc) auto

lemma update_absent: "k \<notin> fst ` set al \<Longrightarrow> AList.update k v al = al @ [(k, v)]"
  by (induction al) auto

lemma for_each_update:
  "(\<And>d res. d \<in> set ids \<Longrightarrow> body res d = Inr (AList.update d (g d) res)) \<Longrightarrow>
   distinct ids \<Longrightarrow> set ids \<inter> fst ` set res = {} \<Longrightarrow>
   for_each body ids res = Inr (res @ map (\<lambda>d. (d, g d)) ids)"
proof (induction ids arbitrary: res)
  case Nil
  show ?case by simp
next
  case (Cons d ids)
  have d: "d \<notin> fst ` set res" using Cons.prems(3) by auto
  have step: "body res d = Inr (res @ [(d, g d)])"
    using Cons.prems(1) [of d res] d by (simp add: update_absent)
  have "for_each body ids (res @ [(d, g d)]) = Inr ((res @ [(d, g d)]) @ map (\<lambda>d. (d, g d)) ids)"
  proof (rule Cons.IH)
    show "\<And>d' res'. d' \<in> set ids \<Longrightarrow> body res' d' = Inr (AList.update d' (g d') res')"
      using Cons.prems(1) by simp
    show "distinct ids" using Cons.prems(2) by simp
    show "set ids \<inter> fst ` set (res @ [(d, g d)]) = {}"
      using Cons.prems(2,3) by auto
  qed
  with step show ?case by simp
qed

lemma sort_distinct_eq:
  "distinct xs \<Longrightarrow> set xs = set ys \<Longrightarrow> sort xs = sort (remdups ys)"
proof -
  assume a: "distinct xs" "set xs = set ys"
  have "sort xs = sort (remdups xs)" using a(1) by (simp add: distinct_remdups_id)
  also have "\<dots> = sorted_list_of_set (set xs)" by (simp add: sorted_list_of_set_sort_remdups)
  also have "\<dots> = sort (remdups ys)" using a(2) by (simp add: sorted_list_of_set_sort_remdups)
  finally show ?thesis .
qed

lemma insort_key_map:
  "insort_key f (g x) (map g ys) = map g (insort_key (\<lambda>y. f (g y)) x ys)"
  by (induction ys) auto

lemma sort_key_map: "sort_key f (map g xs) = map g (sort_key (\<lambda>y. f (g y)) xs)"
  by (induction xs) (auto simp: insort_key_map)

lemma sort_key_not_Nil: "xs \<noteq> [] \<Longrightarrow> sort_key f xs \<noteq> []"
  by (metis length_sort length_0_conv)

lemma grouped_index:
  fixes kf :: "'x \<Rightarrow> 'd::linorder" and sf :: "'x \<Rightarrow> string" and vf :: "'x \<Rightarrow> 'v"
    and key :: "'v \<Rightarrow> string" and mk :: "'v \<Rightarrow> index_asset"
  assumes G: "G = foldl (\<lambda>t x. dd_append2 (kf x) (sf x) (vf x) t) [] xs"
    and pick: "\<And>subjects acc s. pick subjects acc s =
        (case sort_key key (dd_get [] subjects s) of
           [] \<Rightarrow> Inl IndexError | e # _ \<Rightarrow> Inr (acc @ [mk e]))"
    and body: "\<And>result did. body result did =
        (let subjects = dd_get [] G did
         in case for_each (pick subjects) (sort (map fst subjects)) [] of
              Inl err \<Rightarrow> Inl err
            | Inr assets \<Rightarrow> Inr (AList.update did assets result))"
  shows "for_each body (sort (map fst G)) [] =
     Inr (map (\<lambda>did. (did,
            map (\<lambda>s. mk (hd (sort_key key (map vf (filter (\<lambda>x. kf x = did \<and> sf x = s) xs)))))
              (sort (remdups (map sf (filter (\<lambda>x. kf x = did) xs))))))
          (sort (remdups (map kf xs))))"
proof -
  let ?grp = "\<lambda>did s. map vf (filter (\<lambda>x. kf x = did \<and> sf x = s) xs)"
  let ?subjs = "\<lambda>did. sort (remdups (map sf (filter (\<lambda>x. kf x = did) xs)))"
  let ?assets = "\<lambda>did. map (\<lambda>s. mk (hd (sort_key key (?grp did s)))) (?subjs did)"
  have grp: "dd_get [] (dd_get [] G did) s = ?grp did s" for did s
    unfolding G by (simp add: group2_get dd_get_Nil)
  have inner_keys: "fst ` set (dd_get [] G did) = sf ` {x \<in> set xs. kf x = did}" for did
    unfolding G by (simp add: group2_inner_keys dd_get_Nil)
  have inner_distinct: "distinct (map fst (dd_get [] G did))" for did
    unfolding G by (rule group2_inner_distinct) (simp add: dd_get_Nil)
  have subjs: "sort (map fst (dd_get [] G did)) = ?subjs did" for did
  proof (rule sort_distinct_eq [OF inner_distinct])
    show "set (map fst (dd_get [] G did)) = set (map sf (filter (\<lambda>x. kf x = did) xs))"
      using inner_keys [of did] by auto
  qed
  have keys: "sort (map fst G) = sort (remdups (map kf xs))"
  proof (rule sort_distinct_eq)
    show "distinct (map fst G)" unfolding G by (rule group2_distinct) simp
    show "set (map fst G) = set (map kf xs)"
      using group2_keys [of kf sf vf "[]" xs] unfolding G by simp
  qed
  have picked: "pick (dd_get [] G did) acc s = Inr (acc @ [mk (hd (sort_key key (?grp did s)))])"
    if "s \<in> set (?subjs did)" for did acc s
  proof -
    from that obtain x where "x \<in> set xs" "kf x = did" "sf x = s" by auto
    then have "?grp did s \<noteq> []" by (auto simp: filter_empty_conv)
    then have "sort_key key (?grp did s) \<noteq> []" by (rule sort_key_not_Nil)
    then show ?thesis
      by (simp add: pick grp split: list.splits)
  qed
  have inner: "for_each (pick (dd_get [] G did)) (sort (map fst (dd_get [] G did))) [] =
      Inr (?assets did)" for did
    unfolding subjs using for_each_append [of "?subjs did" "pick (dd_get [] G did)"
        "\<lambda>s. mk (hd (sort_key key (?grp did s)))" "[]"] picked
    by simp
  have step: "body result did = Inr (AList.update did (?assets did) result)" for result did
    by (simp add: body Let_def inner)
  have "for_each body (sort (remdups (map kf xs))) [] =
      Inr ([] @ map (\<lambda>did. (did, ?assets did)) (sort (remdups (map kf xs))))"
    by (rule for_each_update) (simp_all add: step)
  then show ?thesis by (simp add: keys)
qed

lemma rescan_group_eq:
  "rescan_group cache =
     foldl (\<lambda>t x. dd_append2 (fst (fst x)) (extract_subject (path (snd x))) (snd x) t) [] cache"
  unfolding rescan_group_def
  by (rule arg_cong [where f = "\<lambda>f. foldl f [] cache"]) (auto simp: fun_eq_iff)

lemma regenerate_spec: "regenerate cache = Inr (spec_index rescan_record (cache_pairs cache))"
proof -
  have "for_each (rescan_dandiset (rescan_group cache)) (sort (map fst (rescan_group cache))) [] =
     Inr (map (\<lambda>did. (did,
            map (\<lambda>s. rescan_record (hd (sort_key path
                  (map snd (filter (\<lambda>x. fst (fst x) = did \<and> extract_subject (path (snd x)) = s) cache)))))
              (sort (remdups (map (\<lambda>x. extract_subject (path (snd x)))
                  (filter (\<lambda>x. fst (fst x) = did) cache))))))
          (sort (remdups (map (\<lambda>x. fst (fst x)) cache))))"
    by (rule grouped_index [where pick = rescan_pick, OF rescan_group_eq])
       (simp_all add: rescan_pick_def rescan_dandiset_def)
  then show ?thesis
    by (simp add: regenerate_def Let_def spec_index_def cache_pairs_def members_def
        subjects_of_def dandisets_of_def canonical_def filter_map comp_def case_prod_beta)
qed

section \<open>Both scripts compute the index of the specification\<close>

lemma gen_record_eq: "gen_record e = rescan_record e"
  by (simp add: gen_record_def rescan_record_def gen_regions_eq rescan_regions_eq)

subsection \<open>Canonical entry\<close>

lemma canonical_in: "es \<noteq> [] \<Longrightarrow> canonical es \<in> set es"
proof -
  assume "es \<noteq> []"
  then have "sort_key path es \<noteq> []" by (rule sort_key_not_Nil)
  then have "hd (sort_key path es) \<in> set (sort_key path es)" by (rule hd_in_set)
  then show ?thesis by (simp add: canonical_def)
qed

lemma canonical_le: "e \<in> set es \<Longrightarrow> path (canonical es) \<le> path e"
proof -
  assume e: "e \<in> set es"
  have s: "sorted (map path (sort_key path es))" by (rule sorted_sort_key)
  from e have "e \<in> set (sort_key path es)" by simp
  with s show ?thesis
    unfolding canonical_def by (cases "sort_key path es") auto
qed

lemma members_iff:
  "e \<in> set (members xs did s) \<longleftrightarrow> (did, e) \<in> set xs \<and> extract_subject (path e) = s"
  by (force simp: members_def)

lemma subjects_of_iff:
  "s \<in> set (subjects_of xs did) \<longleftrightarrow> (\<exists>e. (did, e) \<in> set xs \<and> extract_subject (path e) = s)"
  by (force simp: subjects_of_def)

lemma subjects_of_members: "s \<in> set (subjects_of xs did) \<Longrightarrow> members xs did s \<noteq> []"
proof -
  assume "s \<in> set (subjects_of xs did)"
  then obtain e where "e \<in> set (members xs did s)"
    unfolding subjects_of_iff members_iff by blast
  then show ?thesis by auto
qed

lemma strict_subjects_of: "sorted_wrt (<) (subjects_of xs did)"
  by (simp add: subjects_of_def strict_sorted_iff)

lemma strict_dandisets_of: "sorted_wrt (<) (dandisets_of xs)"
  by (simp add: dandisets_of_def strict_sorted_iff)

lemma set_dandisets_of: "set (dandisets_of xs) = fst ` set xs"
  by (simp add: dandisets_of_def)

lemma keys_spec_index: "map fst (spec_index mk xs) = dandisets_of xs"
  by (simp add: spec_index_def comp_def)

lemma lookup_spec_index:
  "(did, e) \<in> set xs \<Longrightarrow>
   map_of (spec_index mk xs) did =
     Some (map (\<lambda>subj. mk (canonical (members xs did subj))) (subjects_of xs did))"
proof -
  assume "(did, e) \<in> set xs"
  then have "did \<in> set (dandisets_of xs)" by (force simp: set_dandisets_of)
  then show ?thesis
    by (simp add: spec_index_def map_of_map_restrict)
qed

lemma subject_of_record:
  assumes mk: "\<And>e. out_path (mk e) = path e" and s: "s \<in> set (subjects_of xs did)"
  shows "extract_subject (out_path (mk (canonical (members xs did s)))) = s"
proof -
  have "canonical (members xs did s) \<in> set (members xs did s)"
    using s by (intro canonical_in subjects_of_members)
  then show ?thesis by (simp add: mk members_iff)
qed

lemma subjects_of_records:
  assumes mk: "\<And>e. out_path (mk e) = path e"
  shows "map (\<lambda>r. extract_subject (out_path r))
           (map (\<lambda>subj. mk (canonical (members xs did subj))) (subjects_of xs did)) =
         subjects_of xs did"
proof -
  have "map (\<lambda>s. extract_subject (out_path (mk (canonical (members xs did s))))) (subjects_of xs did) =
        map (\<lambda>s. s) (subjects_of xs did)"
    by (rule map_cong [OF refl]) (rule subject_of_record [OF mk])
  then show ?thesis by (simp add: comp_def)
qed

lemma filter_eq_single: "distinct ys \<Longrightarrow> y \<in> set ys \<Longrightarrow> filter (\<lambda>z. z = y) ys = [y]"
  by (induction ys) (auto simp: filter_empty_conv)

lemma record_of_subject:
  assumes mk: "\<And>e. out_path (mk e) = path e" and s: "s \<in> set (subjects_of xs did)"
  shows "filter (\<lambda>r. extract_subject (out_path r) = s)
           (map (\<lambda>subj. mk (canonical (members xs did subj))) (subjects_of xs did)) =
         [mk (canonical (members xs did s))]"
proof -
  let ?f = "\<lambda>subj. mk (canonical (members xs did subj))"
  have d: "distinct (subjects_of xs did)" by (simp add: subjects_of_def)
  have "filter (\<lambda>r. extract_subject (out_path r) = s) (map ?f (subjects_of xs did)) =
        map ?f (filter (\<lambda>s'. extract_subject (out_path (?f s')) = s) (subjects_of xs did))"
    by (simp add: filter_map comp_def)
  also have "filter (\<lambda>s'. extract_subject (out_path (?f s')) = s) (subjects_of xs did) =
             filter (\<lambda>s'. s' = s) (subjects_of xs did)"
    by (rule filter_cong [OF refl]) (simp add: subject_of_record [OF mk])
  also have "\<dots> = [s]" using d s by (rule filter_eq_single)
  finally show ?thesis by simp
qed

subsection \<open>Reading the log\<close>

lemma gen_read_eq:
  "gen_read ls t =
     (if Blank \<in> set ls \<or> Malformed \<in> set ls then Inl MalformedRecordError
      else Inr (foldl (\<lambda>t e. dd_append2 (dandiset_id e) (extract_subject (path e)) (gen_record e) t)
                  t (records ls)))"
  by (induction ls t rule: gen_read.induct) (auto simp: gen_extract_subject_eq)

lemma load_lines_eq:
  "load_lines ls c =
     (if Malformed \<in> set ls then Inl MalformedRecordError
      else Inr (foldl (\<lambda>c e. AList.update (entry_key e) e c) c (records ls)))"
  by (induction ls c rule: load_lines.induct) (auto simp: entry_key_def)

lemma gen_main_spec:
  assumes "Blank \<notin> set ls" "Malformed \<notin> set ls"
  shows "gen_main (Some ls) = Inr (spec_index gen_record (log_pairs (records ls)))"
proof -
  let ?es = "records ls"
  let ?G = "foldl (\<lambda>t e. dd_append2 (dandiset_id e) (extract_subject (path e)) (gen_record e) t)
              [] ?es"
  let ?F = "\<lambda>did s. filter (\<lambda>e. dandiset_id e = did \<and> extract_subject (path e) = s) ?es"
  let ?S = "\<lambda>did. sort (remdups (map (\<lambda>e. extract_subject (path e))
                  (filter (\<lambda>e. dandiset_id e = did) ?es)))"
  have built: "for_each (gen_dandiset ?G) (sort (map fst ?G)) [] =
     Inr (map (\<lambda>did. (did,
            map (\<lambda>s. (\<lambda>a. a) (hd (sort_key out_path (map gen_record (?F did s))))) (?S did)))
          (sort (remdups (map dandiset_id ?es))))"
    by (rule grouped_index [where pick = gen_pick and mk = "\<lambda>a. a", OF refl])
       (simp_all add: gen_pick_def gen_dandiset_def)
  have hd_eq: "hd (sort_key out_path (map gen_record es)) = gen_record (hd (sort_key path es))"
    if "es \<noteq> []" for es :: "'a entry list"
  proof -
    have "sort_key out_path (map gen_record es) = map gen_record (sort_key path es)"
      by (simp add: sort_key_map gen_record_def)
    with that show ?thesis by (simp add: hd_map sort_key_not_Nil)
  qed
  have inner: "map (\<lambda>s. hd (sort_key out_path (map gen_record (?F did s)))) (?S did) =
      map (\<lambda>s. gen_record (hd (sort_key path (?F did s)))) (?S did)" for did
  proof (rule map_cong [OF refl])
    fix s assume "s \<in> set (?S did)"
    then have "?F did s \<noteq> []" by (auto simp: filter_empty_conv)
    then show "hd (sort_key out_path (map gen_record (?F did s))) =
        gen_record (hd (sort_key path (?F did s)))" by (rule hd_eq)
  qed
  have "gen_main (Some ls) = for_each (gen_dandiset ?G) (sort (map fst ?G)) []"
    using assms by (simp add: gen_main_def gen_read_eq)
  also note built
  finally show ?thesis
    by (simp add: inner spec_index_def log_pairs_def members_def
        subjects_of_def dandisets_of_def canonical_def filter_map comp_def)
qed

section \<open>The canonical entry of a subject\<close>

lemma out_path_rescan_record: "out_path (rescan_record e) = path e"
  by (simp add: rescan_record_def)

lemma out_path_gen_record: "out_path (gen_record e) = path e"
  by (simp add: gen_record_def)

lemma records_map_Record: "records (map Record es) = es"
  by (induction es) auto

lemma gen_main_records:
  "gen_main (Some (map Record es)) = Inr (spec_index gen_record (log_pairs es))"
proof -
  have "Blank \<notin> set (map Record es)" "Malformed \<notin> set (map Record es)" by auto
  then show ?thesis using gen_main_spec [of "map Record es"] by (simp add: records_map_Record)
qed

lemma canonical_group:
  assumes mk: "\<And>e. out_path (mk e) = path e" and e0: "(did, e0) \<in> set xs"
  defines "subj \<equiv> extract_subject (path e0)"
  defines "e \<equiv> canonical (members xs did subj)"
  shows "(did, e) \<in> set xs" "extract_subject (path e) = subj"
    "\<And>e'. (did, e') \<in> set xs \<Longrightarrow> extract_subject (path e') = subj \<Longrightarrow> path e \<le> path e'"
    "\<exists>recs. map_of (spec_index mk xs) did = Some recs \<and>
       filter (\<lambda>r. extract_subject (out_path r) = subj) recs = [mk e]"
proof -
  have s: "subj \<in> set (subjects_of xs did)"
    unfolding subjects_of_iff subj_def using e0 by blast
  then have "e \<in> set (members xs did subj)"
    unfolding e_def by (intro canonical_in subjects_of_members)
  then show "(did, e) \<in> set xs" "extract_subject (path e) = subj"
    by (simp_all add: members_iff)
  show "path e \<le> path e'" if "(did, e') \<in> set xs" "extract_subject (path e') = subj" for e'
    unfolding e_def using that by (intro canonical_le) (simp add: members_iff)
  show "\<exists>recs. map_of (spec_index mk xs) did = Some recs \<and>
       filter (\<lambda>r. extract_subject (out_path r) = subj) recs = [mk e]"
    unfolding e_def using lookup_spec_index [OF e0, of mk] record_of_subject [OF mk s] by simp
qed

text \<open>
  Claim C2. For every dandiset and subject that has an entry among the entries a script
  groups (the cache table for the synchronizer, the lines of the log for the standalone
  script), the index has exactly one record of that subject under that dandiset, and it is
  built from an entry of the group whose path is smallest among all entries of the group.
\<close>

theorem canonical_smallest_path:
  assumes "(did, e0) \<in> set xs"
  shows "\<exists>e. (did, e) \<in> set xs \<and> extract_subject (path e) = extract_subject (path e0)
    \<and> (\<forall>e'. (did, e') \<in> set xs \<and> extract_subject (path e') = extract_subject (path e0)
          \<longrightarrow> path e \<le> path e')
    \<and> (xs = cache_pairs cache \<longrightarrow>
         (\<exists>idx recs. regenerate cache = Inr idx \<and> map_of idx did = Some recs
            \<and> filter (\<lambda>r. extract_subject (out_path r) = extract_subject (path e0)) recs
                = [rescan_record e]))
    \<and> (xs = log_pairs es \<longrightarrow>
         (\<exists>idx recs. gen_main (Some (map Record es)) = Inr idx \<and> map_of idx did = Some recs
            \<and> filter (\<lambda>r. extract_subject (out_path r) = extract_subject (path e0)) recs
                = [gen_record e]))"
proof -
  let ?e = "canonical (members xs did (extract_subject (path e0)))"
  note r = canonical_group [where mk = rescan_record, OF out_path_rescan_record assms]
  note g = canonical_group [where mk = gen_record, OF out_path_gen_record assms]
  have 1: "(did, ?e) \<in> set xs" by (rule r(1))
  have 2: "extract_subject (path ?e) = extract_subject (path e0)" by (rule r(2))
  have 3: "\<forall>e'. (did, e') \<in> set xs \<and> extract_subject (path e') = extract_subject (path e0)
          \<longrightarrow> path ?e \<le> path e'" using r(3) by blast
  have 4: "xs = cache_pairs cache \<longrightarrow>
         (\<exists>idx recs. regenerate cache = Inr idx \<and> map_of idx did = Some recs
            \<and> filter (\<lambda>r. extract_subject (out_path r) = extract_subject (path e0)) recs
                = [rescan_record ?e])"
    using r(4) by (auto simp: regenerate_spec)
  have 5: "xs = log_pairs es \<longrightarrow>
         (\<exists>idx recs. gen_main (Some (map Record es)) = Inr idx \<and> map_of idx did = Some recs
            \<and> filter (\<lambda>r. extract_subject (out_path r) = extract_subject (path e0)) recs
                = [gen_record ?e])"
    using g(4) by (auto simp: gen_main_records)
  from 1 2 3 4 5 show ?thesis by blast
qed

theorem canonical_smallest_path_witness:
  "(1, ex_b) \<in> set (log_pairs [ex_b, ex_a]) \<and> log_pairs [ex_b, ex_a] = cache_pairs ex_cache
   \<and> (\<exists>idx recs. regenerate ex_cache = Inr idx \<and> map_of idx 1 = Some recs
        \<and> filter (\<lambda>r. extract_subject (out_path r) = ''sub-01'') recs = [rescan_record ex_a])
   \<and> (\<exists>idx recs. gen_main (Some (map Record [ex_b, ex_a])) = Inr idx \<and> map_of idx 1 = Some recs
        \<and> filter (\<lambda>r. extract_subject (out_path r) = ''sub-01'') recs = [gen_record ex_a])"
proof -
  have h: "(1, ex_b) \<in> set (log_pairs [ex_b, ex_a])"
    by (simp add: log_pairs_def ex_b_def)
  have c: "log_pairs [ex_b, ex_a] = cache_pairs ex_cache"
    by (simp add: log_pairs_def cache_pairs_def ex_cache_def ex_a_def ex_b_def)
  have sb: "extract_subject (path ex_b) = ''sub-01''"
    by (simp add: ex_b_def extract_subject_eq)
  have sa: "extract_subject (path ex_a) = ''sub-01''"
    by (simp add: ex_a_def extract_subject_eq)
  have lt: "\<not> path ex_b \<le> path ex_a"
    by (simp add: ex_a_def ex_b_def)
  from canonical_smallest_path [OF h, of ex_cache "[ex_b, ex_a]"] obtain e where
    e: "(1, e) \<in> set (log_pairs [ex_b, ex_a])"
      "\<forall>e'. (1, e') \<in> set (log_pairs [ex_b, ex_a]) \<and> extract_subject (path e') = extract_subject (path ex_b)
          \<longrightarrow> path e \<le> path e'"
      "\<exists>idx recs. regenerate ex_cache = Inr idx \<and> map_of idx 1 = Some recs
            \<and> filter (\<lambda>r. extract_subject (out_path r) = extract_subject (path ex_b)) recs
                = [rescan_record e]"
      "\<exists>idx recs. gen_main (Some (map Record [ex_b, ex_a])) = Inr idx \<and> map_of idx 1 = Some recs
            \<and> filter (\<lambda>r. extract_subject (out_path r) = extract_subject (path ex_b)) recs
                = [gen_record e]"
    using c by blast
  have "(1, ex_a) \<in> set (log_pairs [ex_b, ex_a])" by (simp add: log_pairs_def ex_a_def)
  with e(2) sa sb have "path e \<le> path ex_a" by simp
  with e(1) lt have "e = ex_a" by (auto simp: log_pairs_def)
  with e(3,4) h c sb show ?thesis by simp
qed

section \<open>The synchronizer only appends\<close>

lemma labelled_Nil: "labelled P [] = []"
  by (simp add: labelled_def)

lemma labelled_append: "labelled P (xs @ ys) = labelled P xs @ labelled P ys"
  by (simp add: labelled_def)

lemma labelled_single:
  "labelled P [(d, a)] = (case P d a of Inl exc \<Rightarrow> [] | Inr r \<Rightarrow> [((d, listed_asset_id a), r)])"
  by (simp add: labelled_def)

lemma record_calls_Nil: "record_calls P st [] = st"
  by (simp add: record_calls_def labelled_Nil)

lemma record_calls_append:
  "record_calls P (record_calls P st xs) ys = record_calls P st (xs @ ys)"
  by (simp add: record_calls_def labelled_append)

lemma record_calls_sel:
  "label_cache (record_calls P st calls) = label_cache st @ labelled P calls"
  "attempts (record_calls P st calls) = attempts st @ calls"
  "total_new (record_calls P st calls) = total_new st + length (labelled P calls)"
  "log_file (record_calls P st calls) =
     foldl (\<lambda>fs kv. append_label_cache (snd kv) fs) (log_file st) (labelled P calls)"
  by (simp_all add: record_calls_def)

lemma group_assets_get:
  "dd_get [] (group_assets all_assets) s =
     filter (\<lambda>a. extract_subject (listed_path a) = s) all_assets"
  using group1_get [of "\<lambda>a. extract_subject (listed_path a)" "\<lambda>a. a" "[]" all_assets s]
  by (simp add: group_assets_def dd_get_Nil)

lemma group_assets_keys:
  "fst ` set (group_assets all_assets) = (\<lambda>a. extract_subject (listed_path a)) ` set all_assets"
  using group1_keys [of "\<lambda>a. extract_subject (listed_path a)" "\<lambda>a. a" "[]" all_assets]
  by (simp add: group_assets_def)

lemma group_assets_distinct: "distinct (map fst (group_assets all_assets))"
  unfolding group_assets_def by (rule group1_distinct) simp

lemma list_ex_sort_key: "list_ex Q (sort_key f xs) = list_ex Q xs"
  by (simp add: list_ex_iff)

lemma sync_subject_step:
  assumes "subj \<in> (\<lambda>a. extract_subject (listed_path a)) ` set all_assets"
  shows "sync_subject P ds (group_assets all_assets) st subj =
           Inr (record_calls P st (subject_calls ds all_assets st subj))"
proof -
  let ?grp = "filter (\<lambda>a. extract_subject (listed_path a) = subj) all_assets"
  let ?cached = "list_ex (\<lambda>a. (ds, listed_asset_id a) \<in> fst ` set (label_cache st)) ?grp"
  from assms have ne: "?grp \<noteq> []" by (auto simp: filter_empty_conv)
  then have sne: "sort_key listed_path ?grp \<noteq> []" by (rule sort_key_not_Nil)
  then obtain a rest where ar: "sort_key listed_path ?grp = a # rest"
    by (cases "sort_key listed_path ?grp") auto
  show ?thesis
  proof (cases ?cached)
    case True
    then show ?thesis
      by (simp add: sync_subject_def subject_calls_def group_assets_get list_ex_sort_key
          record_calls_Nil Let_def)
  next
    case False
    have "a \<in> set (sort_key listed_path ?grp)" by (simp add: ar)
    then have "a \<in> set ?grp" by (simp only: set_sort)
    with False have fresh: "(ds, listed_asset_id a) \<notin> fst ` set (label_cache st)"
      by (auto simp: list_ex_iff)
    from False have nc: "\<not> list_ex (\<lambda>a. (ds, listed_asset_id a) \<in> fst ` set (label_cache st)) (a # rest)"
      unfolding ar [symmetric] by (simp add: list_ex_sort_key)
    have hd: "hd (a # rest) = a" by simp
    show ?thesis
    proof (cases "P ds a")
      case (Inl exc)
      have "sync_subject P ds (group_assets all_assets) st subj =
          Inr (st\<lparr>attempts := attempts st @ [(ds, a)]\<rparr>)"
        unfolding sync_subject_def group_assets_get Let_def ar using nc Inl
        by (simp only: if_False list.case sum.case)
      moreover have "subject_calls ds all_assets st subj = [(ds, a)]"
        unfolding subject_calls_def Let_def ar using False by (simp only: if_False hd)
      ultimately show ?thesis
        using Inl by (simp add: record_calls_def labelled_single)
    next
      case (Inr r)
      have "sync_subject P ds (group_assets all_assets) st subj =
          Inr (st\<lparr>label_cache := AList.update (ds, listed_asset_id a) r (label_cache st),
                   log_file := append_label_cache r (log_file st),
                   total_new := total_new st + 1,
                   attempts := attempts st @ [(ds, a)]\<rparr>)"
        unfolding sync_subject_def group_assets_get Let_def ar using nc Inr
        by (simp only: if_False list.case sum.case)
      moreover have "subject_calls ds all_assets st subj = [(ds, a)]"
        unfolding subject_calls_def Let_def ar using False by (simp only: if_False hd)
      ultimately show ?thesis
        using Inr fresh by (simp add: record_calls_def labelled_single update_absent)
    qed
  qed
qed

lemma subject_calls_cases:
  assumes "subj \<in> (\<lambda>a. extract_subject (listed_path a)) ` set all_assets"
    and m: "(d, a) \<in> set (subject_calls ds all_assets st subj)"
  shows "d = ds \<and> a \<in> set all_assets \<and> extract_subject (listed_path a) = subj"
proof -
  let ?grp = "filter (\<lambda>a. extract_subject (listed_path a) = subj) all_assets"
  from m have d: "d = ds" and a: "a = hd (sort_key listed_path ?grp)"
    by (auto simp: subject_calls_def Let_def split: if_splits)
  from assms(1) have "?grp \<noteq> []" by (auto simp: filter_empty_conv)
  then have "sort_key listed_path ?grp \<noteq> []" by (rule sort_key_not_Nil)
  then have "hd (sort_key listed_path ?grp) \<in> set (sort_key listed_path ?grp)" by (rule hd_in_set)
  then have "a \<in> set ?grp" using a by (simp only: set_sort)
  with d show ?thesis by simp
qed

lemma for_each_app:
  "for_each body (xs @ ys) st =
     (case for_each body xs st of Inl err \<Rightarrow> Inl err | Inr st' \<Rightarrow> for_each body ys st')"
  by (induction xs arbitrary: st) (auto split: sum.splits)

lemma keys_record_calls:
  "fst ` set (label_cache st) \<subseteq> fst ` set (label_cache (record_calls P st calls))"
  by (auto simp: record_calls_sel)

lemma subject_calls_uncached:
  "(d, a) \<in> set (subject_calls ds all_assets st subj) \<Longrightarrow> uncached ds all_assets st subj"
  by (auto simp: subject_calls_def uncached_def Let_def split: if_splits)

lemma uncached_mono:
  "uncached ds all_assets (record_calls P st calls) subj \<Longrightarrow> uncached ds all_assets st subj"
  unfolding uncached_def list_ex_iff using keys_record_calls [of st P calls] by blast

lemma sync_subjects_calls:
  assumes "set ss \<subseteq> (\<lambda>a. extract_subject (listed_path a)) ` set all_assets"
  shows "\<exists>new. for_each (sync_subject P ds (group_assets all_assets)) ss st =
            Inr (record_calls P st new)
         \<and> (\<forall>(d, a) \<in> set new. d = ds \<and> a \<in> set all_assets
               \<and> extract_subject (listed_path a) \<in> set ss
               \<and> uncached ds all_assets st (extract_subject (listed_path a)))"
  using assms
proof (induction ss arbitrary: st)
  case Nil
  have "for_each (sync_subject P ds (group_assets all_assets)) [] st = Inr (record_calls P st [])"
    by (simp add: record_calls_Nil)
  then show ?case by fastforce
next
  case (Cons s ss)
  let ?n1 = "subject_calls ds all_assets st s"
  let ?st1 = "record_calls P st ?n1"
  from Cons.prems have s: "s \<in> (\<lambda>a. extract_subject (listed_path a)) ` set all_assets"
    and ss: "set ss \<subseteq> (\<lambda>a. extract_subject (listed_path a)) ` set all_assets"
    by auto
  from Cons.IH [OF ss, of ?st1] obtain n2 where
    n2: "for_each (sync_subject P ds (group_assets all_assets)) ss ?st1 = Inr (record_calls P ?st1 n2)"
    and p2: "\<forall>(d, a) \<in> set n2. d = ds \<and> a \<in> set all_assets
               \<and> extract_subject (listed_path a) \<in> set ss
               \<and> uncached ds all_assets ?st1 (extract_subject (listed_path a))"
    by blast
  have run: "for_each (sync_subject P ds (group_assets all_assets)) (s # ss) st =
      Inr (record_calls P st (?n1 @ n2))"
    by (simp add: sync_subject_step [OF s] n2 record_calls_append)
  have p1: "\<forall>(d, a) \<in> set ?n1. d = ds \<and> a \<in> set all_assets
               \<and> extract_subject (listed_path a) \<in> set (s # ss)
               \<and> uncached ds all_assets st (extract_subject (listed_path a))"
    using subject_calls_cases [OF s] subject_calls_uncached [of _ _ ds all_assets st s] by fastforce
  have p2': "\<forall>(d, a) \<in> set n2. d = ds \<and> a \<in> set all_assets
               \<and> extract_subject (listed_path a) \<in> set (s # ss)
               \<and> uncached ds all_assets st (extract_subject (listed_path a))"
    using p2 uncached_mono [of ds all_assets P st ?n1] by fastforce
  from run p1 p2' show ?case
    by (intro exI [of _ "?n1 @ n2"]) auto
qed

lemma subjects_sorted:
  "distinct (sort (map fst (group_assets all_assets)))"
  "set (sort (map fst (group_assets all_assets))) =
     (\<lambda>a. extract_subject (listed_path a)) ` set all_assets"
  using group_assets_keys [of all_assets] by (simp_all add: group_assets_distinct)

lemma sync_dandiset_calls:
  assumes "L ds = Inr all_assets"
  shows "\<exists>new. sync_dandiset L P st ds = Inr (record_calls P st new)
         \<and> (\<forall>(d, a) \<in> set new. d = ds \<and> a \<in> set all_assets
               \<and> uncached ds all_assets st (extract_subject (listed_path a)))"
proof -
  have "set (sort (map fst (group_assets all_assets))) \<subseteq>
      (\<lambda>a. extract_subject (listed_path a)) ` set all_assets"
    by (simp add: group_assets_keys)
  from sync_subjects_calls [OF this, of P ds st] obtain new where
    "for_each (sync_subject P ds (group_assets all_assets))
        (sort (map fst (group_assets all_assets))) st = Inr (record_calls P st new)"
    "\<forall>(d, a) \<in> set new. d = ds \<and> a \<in> set all_assets
               \<and> extract_subject (listed_path a) \<in> set (sort (map fst (group_assets all_assets)))
               \<and> uncached ds all_assets st (extract_subject (listed_path a))"
    by blast
  then show ?thesis
    using assms by (intro exI [of _ new]) (auto simp: sync_dandiset_def Let_def)
qed

lemma sync_dandisets_calls:
  assumes "for_each (sync_dandiset L P) ids st = Inr st'"
  shows "\<exists>new. st' = record_calls P st new
         \<and> (\<forall>(d, a) \<in> set new. d \<in> set ids \<and> (\<exists>as. L d = Inr as \<and> a \<in> set as))"
  using assms
proof (induction ids arbitrary: st)
  case Nil
  then have "st' = record_calls P st []" by (simp add: record_calls_Nil)
  then show ?case by fastforce
next
  case (Cons d ids)
  from Cons.prems obtain st1 where
    st1: "sync_dandiset L P st d = Inr st1" and rest: "for_each (sync_dandiset L P) ids st1 = Inr st'"
    by (auto split: sum.splits)
  from st1 obtain as where as: "L d = Inr as"
    by (auto simp: sync_dandiset_def split: sum.splits)
  from sync_dandiset_calls [of L d as P st] as st1 obtain n1 where
    n1: "st1 = record_calls P st n1" and p1: "\<forall>(d', a) \<in> set n1. d' = d \<and> a \<in> set as"
    by fastforce
  from Cons.IH [OF rest] obtain n2 where
    n2: "st' = record_calls P st1 n2"
    and p2: "\<forall>(d, a) \<in> set n2. d \<in> set ids \<and> (\<exists>as. L d = Inr as \<and> a \<in> set as)"
    by blast
  have "st' = record_calls P st (n1 @ n2)" by (simp add: n1 n2 record_calls_append)
  moreover have "\<forall>(d', a) \<in> set (n1 @ n2). d' \<in> set (d # ids) \<and> (\<exists>as. L d' = Inr as \<and> a \<in> set as)"
    using p1 p2 as by fastforce
  ultimately show ?case by blast
qed

lemma sync_dandisets_total:
  assumes "\<forall>d \<in> set ids. \<exists>as. L d = Inr as"
  shows "\<exists>st'. for_each (sync_dandiset L P) ids st = Inr st'"
  using assms
proof (induction ids arbitrary: st)
  case Nil
  show ?case by simp
next
  case (Cons d ids)
  from Cons.prems obtain as where "L d = Inr as" by auto
  then have "L d = Inr as" .
  from sync_dandiset_calls [of L d as P st] this obtain n1 where
    "sync_dandiset L P st d = Inr (record_calls P st n1)" by blast
  moreover from Cons.IH [of "record_calls P st n1"] Cons.prems
  obtain st' where "for_each (sync_dandiset L P) ids (record_calls P st n1) = Inr st'" by auto
  ultimately show ?case by simp
qed

section \<open>Gap detection\<close>




lemma subject_calls_cached_eq:
  assumes "a \<in> set all_assets" "extract_subject (listed_path a) = subj"
    "(ds, listed_asset_id a) \<in> fst ` set (label_cache st)"
  shows "subject_calls ds all_assets st subj = []"
  using assms by (auto simp: subject_calls_def Let_def list_ex_iff)

lemma filter_other_subjects:
  assumes "\<forall>(d, a) \<in> set new. extract_subject (listed_path a) \<in> set ss" and "subj \<notin> set ss"
  shows "filter (\<lambda>(d, a). extract_subject (listed_path a) = subj) new = []"
  using assms by (auto simp: filter_empty_conv)

text \<open>The loop over the subjects of a dandiset, split at the subject under study.\<close>

lemma sync_dandiset_split:
  assumes listing: "L ds = Inr all_assets"
    and order: "sort (map fst (group_assets all_assets)) = before @ subj # after"
    and reached: "for_each (sync_subject P ds (group_assets all_assets)) before st = Inr st1"
  shows "\<exists>n1 n3. st1 = record_calls P st n1
      \<and> sync_dandiset L P st ds =
          Inr (record_calls P st (n1 @ subject_calls ds all_assets st1 subj @ n3))
      \<and> filter (\<lambda>(d, a). extract_subject (listed_path a) = subj) n1 = []
      \<and> filter (\<lambda>(d, a). extract_subject (listed_path a) = subj) n3 = []
      \<and> subj \<in> (\<lambda>a. extract_subject (listed_path a)) ` set all_assets"
proof -
  let ?G = "group_assets all_assets"
  let ?img = "(\<lambda>a. extract_subject (listed_path a)) ` set all_assets"
  have d: "distinct (before @ subj # after)" and st: "set (before @ subj # after) = ?img"
    using subjects_sorted [of all_assets] by (simp_all only: order)
  from st have b: "set before \<subseteq> ?img" and a: "set after \<subseteq> ?img" and s: "subj \<in> ?img" by auto
  from d have nb: "subj \<notin> set before" and na: "subj \<notin> set after" by auto
  from sync_subjects_calls [OF b, of P ds st] reached obtain n1 where
    n1: "st1 = record_calls P st n1"
    and p1: "\<forall>(d, a) \<in> set n1. extract_subject (listed_path a) \<in> set before"
    by fastforce
  let ?n2 = "subject_calls ds all_assets st1 subj"
  let ?st2 = "record_calls P st1 ?n2"
  from sync_subjects_calls [OF a, of P ds ?st2] obtain n3 where
    n3: "for_each (sync_subject P ds ?G) after ?st2 = Inr (record_calls P ?st2 n3)"
    and p3: "\<forall>(d, a) \<in> set n3. extract_subject (listed_path a) \<in> set after"
    by fastforce
  have "sync_dandiset L P st ds = for_each (sync_subject P ds ?G) (before @ subj # after) st"
    by (simp add: sync_dandiset_def listing order Let_def)
  also have "\<dots> = for_each (sync_subject P ds ?G) (subj # after) st1"
    by (simp add: for_each_app reached)
  also have "\<dots> = Inr (record_calls P ?st2 n3)"
    by (simp add: sync_subject_step [OF s] n3)
  also have "record_calls P ?st2 n3 = record_calls P st (n1 @ ?n2 @ n3)"
    by (simp add: n1 record_calls_append)
  finally have run: "sync_dandiset L P st ds = Inr (record_calls P st (n1 @ ?n2 @ n3))" .
  from n1 run filter_other_subjects [OF p1 nb] filter_other_subjects [OF p3 na] s
  show ?thesis by blast
qed



text \<open>
  Claim C3, as the code has it. The test for a cached subject looks up the keys
  \<open>(ds_id, asset_id)\<close> of the listed assets of the subject. When one of them is in the cache
  (whatever the status of its entry), the subject is skipped: the state is unchanged, no
  labeling is attempted for the subject during the dandiset, and the cache grows only by the
  results of the attempts made for other subjects.
\<close>

theorem cached_subject_skipped:
  assumes listing: "get_assets ds_id = Inr all_assets"
    and order: "sort (map fst (group_assets all_assets)) = before @ subj # after"
    and reached:
      "for_each (sync_subject process_asset ds_id (group_assets all_assets)) before st = Inr st1"
    and listed: "a \<in> set all_assets" "extract_subject (listed_path a) = subj"
    and cached: "(ds_id, listed_asset_id a) \<in> fst ` set (label_cache st1)"
  shows "sync_subject process_asset ds_id (group_assets all_assets) st1 subj = Inr st1
     \<and> (\<exists>st' new. sync_dandiset get_assets process_asset st ds_id = Inr st'
           \<and> attempts st' = attempts st @ new
           \<and> label_cache st' = label_cache st @ labelled process_asset new
           \<and> filter (\<lambda>(d, b). extract_subject (listed_path b) = subj) new = [])"
proof -
  from sync_dandiset_split [where L = get_assets and P = process_asset and ds = ds_id,
      OF listing order reached] obtain n1 n3 where
    run: "sync_dandiset get_assets process_asset st ds_id =
          Inr (record_calls process_asset st (n1 @ subject_calls ds_id all_assets st1 subj @ n3))"
    and f1: "filter (\<lambda>(d, a). extract_subject (listed_path a) = subj) n1 = []"
    and f3: "filter (\<lambda>(d, a). extract_subject (listed_path a) = subj) n3 = []"
    and s: "subj \<in> (\<lambda>a. extract_subject (listed_path a)) ` set all_assets"
    by blast
  have calls: "subject_calls ds_id all_assets st1 subj = []"
    by (rule subject_calls_cached_eq [OF listed cached])
  have step: "sync_subject process_asset ds_id (group_assets all_assets) st1 subj = Inr st1"
    by (simp add: sync_subject_step [OF s] calls record_calls_Nil)
  have "sync_dandiset get_assets process_asset st ds_id =
      Inr (record_calls process_asset st (n1 @ n3))"
    using run calls by simp
  moreover have "filter (\<lambda>(d, b). extract_subject (listed_path b) = subj) (n1 @ n3) = []"
    using f1 f3 by simp
  ultimately have "\<exists>st' new. sync_dandiset get_assets process_asset st ds_id = Inr st'
           \<and> attempts st' = attempts st @ new
           \<and> label_cache st' = label_cache st @ labelled process_asset new
           \<and> filter (\<lambda>(d, b). extract_subject (listed_path b) = subj) new = []"
    by (intro exI [of _ "record_calls process_asset st (n1 @ n3)"] exI [of _ "n1 @ n3"])
       (simp add: record_calls_sel)
  with step show ?thesis by blast
qed

theorem cached_subject_skipped_witness:
  "ex_get_assets 1 = Inr ex_listing
   \<and> sort (map fst (group_assets ex_listing)) = [] @ ''sub-A'' # [''sub-B'']
   \<and> for_each (sync_subject ex_process_ok 1 (group_assets ex_listing)) [] ex_state = Inr ex_state
   \<and> ex_listed_a \<in> set ex_listing \<and> extract_subject (listed_path ex_listed_a) = ''sub-A''
   \<and> (1, listed_asset_id ex_listed_a) \<in> fst ` set (label_cache ex_state)
   \<and> status ex_entry_a = ''error''
   \<and> sync_subject ex_process_ok 1 (group_assets ex_listing) ex_state ''sub-A'' = Inr ex_state
   \<and> (\<exists>st' new. sync_dandiset ex_get_assets ex_process_ok ex_state 1 = Inr st'
           \<and> attempts st' = attempts ex_state @ new
           \<and> label_cache st' = label_cache ex_state @ labelled ex_process_ok new
           \<and> filter (\<lambda>(d, b). extract_subject (listed_path b) = ''sub-A'') new = [])"
proof -
  have h1: "ex_get_assets 1 = Inr ex_listing" by (simp add: ex_get_assets_def)
  have h2: "sort (map fst (group_assets ex_listing)) = [] @ ''sub-A'' # [''sub-B'']"
    by code_simp
  have h3: "for_each (sync_subject ex_process_ok 1 (group_assets ex_listing)) [] ex_state
        = Inr ex_state"
    by simp
  have h4: "ex_listed_a \<in> set ex_listing" by (simp add: ex_listing_def)
  have h5: "extract_subject (listed_path ex_listed_a) = ''sub-A''"
    by (simp add: ex_listed_a_def extract_subject_eq)
  have h6: "(1, listed_asset_id ex_listed_a) \<in> fst ` set (label_cache ex_state)"
    by (simp add: ex_state_def ex_listed_a_def)
  have h7: "status ex_entry_a = ''error''" by (simp add: ex_entry_a_def)
  from cached_subject_skipped [where get_assets = ex_get_assets and ds_id = 1
      and process_asset = ex_process_ok and before = "[]" and subj = "''sub-A''"
      and after = "[''sub-B'']", OF h1 h2 h3 h4 h5 h6] h1 h2 h3 h4 h5 h6 h7
  show ?thesis by blast
qed

text \<open>
  Claim C3 as stated fails when the cached entry of the subject is of an asset that the
  listing does not contain: the cache holds an entry of path \<^verbatim>\<open>sub-B/x.nwb\<close> under the
  asset identifier \<^verbatim>\<open>old\<close>, the listing has the asset \<^verbatim>\<open>b2\<close> at the same path, and the
  synchronizer labels \<^verbatim>\<open>b2\<close> and appends its entry.
\<close>

theorem stale_entry_not_skipped_counterexample:
  "((1, ''old''), ex_old) \<in> set (label_cache ex_stale)
   \<and> extract_subject (path ex_old) = ''sub-B''
   \<and> ex_get_b 1 = Inr [ex_listed_b2]
   \<and> extract_subject (listed_path ex_listed_b2) = ''sub-B''
   \<and> map_sum id attempts (sync_dandiset ex_get_b ex_process_ok ex_stale 1)
        = Inr [(1, ex_listed_b2)]
   \<and> map_sum id (map fst \<circ> label_cache) (sync_dandiset ex_get_b ex_process_ok ex_stale 1)
        = Inr [(1, ''old''), (1, ''b2'')]"
proof -
  have 1: "((1, ''old''), ex_old) \<in> set (label_cache ex_stale)" by (simp add: ex_stale_def)
  have 2: "extract_subject (path ex_old) = ''sub-B''"
    by (simp add: ex_old_def extract_subject_eq)
  have 3: "ex_get_b 1 = Inr [ex_listed_b2]" by (simp add: ex_get_b_def)
  have 4: "extract_subject (listed_path ex_listed_b2) = ''sub-B''"
    by (simp add: ex_listed_b2_def extract_subject_eq)
  have 5: "map_sum id attempts (sync_dandiset ex_get_b ex_process_ok ex_stale 1)
        = Inr [(1, ex_listed_b2)]"
    by code_simp
  have 6: "map_sum id (map fst \<circ> label_cache) (sync_dandiset ex_get_b ex_process_ok ex_stale 1)
        = Inr [(1, ''old''), (1, ''b2'')]"
    by code_simp
  from 1 2 3 4 5 6 show ?thesis by blast
qed

section \<open>Failure isolation\<close>

lemma rescan_main_Inr:
  assumes "rescan_main L P fs = Inr (stf, idx)"
  shows "\<exists>loaded. load_label_cache fs = Inr loaded
     \<and> stf = record_calls P (initial_state loaded fs) (attempts stf)
     \<and> idx = spec_index rescan_record (cache_pairs (label_cache stf))"
proof -
  from assms obtain loaded where load: "load_label_cache fs = Inr loaded"
    by (auto simp: rescan_main_def split: sum.splits)
  let ?ids = "sort (remdups (map (\<lambda>k. fst k) (map fst loaded)))"
  from assms load have loop: "for_each (sync_dandiset L P) ?ids (initial_state loaded fs) = Inr stf"
    and idx: "regenerate (label_cache stf) = Inr idx"
    by (auto simp: rescan_main_def initial_state_def Let_def split: sum.splits)
  from sync_dandisets_calls [OF loop] obtain new where
    new: "stf = record_calls P (initial_state loaded fs) new" by blast
  then have "attempts stf = new" by (simp add: record_calls_sel initial_state_def)
  with new have "stf = record_calls P (initial_state loaded fs) (attempts stf)" by simp
  with load idx show ?thesis by (auto simp: regenerate_spec)
qed

lemma rescan_main_total:
  assumes load: "load_label_cache fs = Inr loaded"
    and listings: "\<forall>d \<in> fst ` fst ` set loaded. \<exists>as. L d = Inr as"
  shows "\<exists>stf idx. rescan_main L P fs = Inr (stf, idx)"
proof -
  let ?ids = "sort (remdups (map (\<lambda>k. fst k) (map fst loaded)))"
  have "\<forall>d \<in> set ?ids. \<exists>as. L d = Inr as" using listings by auto
  from sync_dandisets_total [OF this, of P "initial_state loaded fs"] obtain st' where
    "for_each (sync_dandiset L P) ?ids (initial_state loaded fs) = Inr st'" by blast
  then show ?thesis
    by (simp add: rescan_main_def load initial_state_def Let_def regenerate_spec)
qed

lemma spec_index_record:
  assumes mk: "\<And>e. out_path (mk e) = path e"
    and recs: "map_of (spec_index mk xs) did = Some recs" and r: "r \<in> set recs"
  shows "\<exists>e. (did, e) \<in> set xs \<and> extract_subject (path e) = extract_subject (out_path r)"
proof -
  from recs have
    "recs = map (\<lambda>subj. mk (canonical (members xs did subj))) (subjects_of xs did)"
    by (auto simp: spec_index_def map_of_map_restrict restrict_map_def split: if_splits)
  with r obtain s where s: "s \<in> set (subjects_of xs did)"
    and rs: "r = mk (canonical (members xs did s))" by auto
  have "extract_subject (out_path r) = s"
    unfolding rs by (rule subject_of_record [OF mk s])
  moreover from s obtain e where "(did, e) \<in> set xs" "extract_subject (path e) = s"
    unfolding subjects_of_iff by blast
  ultimately show ?thesis by auto
qed

lemma cache_pairs_append: "cache_pairs (xs @ ys) = cache_pairs xs @ cache_pairs ys"
  by (simp add: cache_pairs_def)

lemma cache_pairs_labelled:
  "(d, e) \<in> set (cache_pairs (labelled P calls)) \<Longrightarrow> \<exists>a. (d, a) \<in> set calls \<and> P d a = Inr e"
  by (auto simp: cache_pairs_def labelled_def split: sum.splits)

text \<open>
  Claim C5, as the code has it. When \<^verbatim>\<open>process_asset\<close> raises for the asset chosen for a
  subject, the loop body returns normally with the cache, the log and the counter unchanged
  (only the call is recorded), so the loop goes on with the next subject. Whatever
  \<^verbatim>\<open>process_asset\<close> raises, a run whose log loads and whose listings succeed completes; its
  final cache is the loaded cache followed by the results of the calls that returned, the
  log grows by the same results, and the index is regenerated from that cache. The index has
  no record of a subject under a dandiset when no loaded entry of that dandiset has a path of
  that subject, every labeling attempted for the subject failed, and the collaborator files
  its results under the subject of the listed path.
\<close>

theorem labeling_failure_isolated:
  assumes load: "load_label_cache fs = Inr loaded"
    and listings: "\<forall>d \<in> fst ` fst ` set loaded. \<exists>as. get_assets d = Inr as"
  shows "(\<forall>st all_assets s a exc.
            a = hd (sort_key listed_path
                      (filter (\<lambda>a. extract_subject (listed_path a) = s) all_assets))
            \<and> s \<in> (\<lambda>a. extract_subject (listed_path a)) ` set all_assets
            \<and> uncached ds_id all_assets st s \<and> process_asset ds_id a = Inl exc
          \<longrightarrow> sync_subject process_asset ds_id (group_assets all_assets) st s
                = Inr (st\<lparr>attempts := attempts st @ [(ds_id, a)]\<rparr>))
    \<and> (\<exists>stf idx. rescan_main get_assets process_asset fs = Inr (stf, idx)
      \<and> label_cache stf = loaded @ labelled process_asset (attempts stf)
      \<and> log_file stf =
          foldl (\<lambda>fs kv. append_label_cache (snd kv) fs) fs (labelled process_asset (attempts stf))
      \<and> regenerate (label_cache stf) = Inr idx
      \<and> ((\<forall>e. (ds_id, e) \<in> set (cache_pairs loaded) \<longrightarrow> extract_subject (path e) \<noteq> subj)
          \<and> (\<forall>a. (ds_id, a) \<in> set (attempts stf) \<and> extract_subject (listed_path a) = subj
                \<longrightarrow> (\<exists>exc. process_asset ds_id a = Inl exc))
          \<and> (\<forall>d a r. process_asset d a = Inr r
                \<longrightarrow> extract_subject (path r) = extract_subject (listed_path a))
         \<longrightarrow> (\<forall>recs. map_of idx ds_id = Some recs
                \<longrightarrow> (\<forall>r \<in> set recs. extract_subject (out_path r) \<noteq> subj))))"
proof -
  have step: "sync_subject process_asset ds_id (group_assets all_assets) st s
                = Inr (st\<lparr>attempts := attempts st @ [(ds_id, a)]\<rparr>)"
    if a: "a = hd (sort_key listed_path
                      (filter (\<lambda>a. extract_subject (listed_path a) = s) all_assets))"
      and s: "s \<in> (\<lambda>a. extract_subject (listed_path a)) ` set all_assets"
      and un: "uncached ds_id all_assets st s" and exc: "process_asset ds_id a = Inl exc"
    for st all_assets s a exc
  proof -
    from un have "subject_calls ds_id all_assets st s = [(ds_id, a)]"
      by (simp add: subject_calls_def uncached_def Let_def a)
    then show ?thesis
      by (simp add: sync_subject_step [OF s] record_calls_def labelled_single exc)
  qed
  from rescan_main_total [OF load listings, of process_asset] obtain stf idx where
    run: "rescan_main get_assets process_asset fs = Inr (stf, idx)" by blast
  from rescan_main_Inr [OF run] load have
    stf: "stf = record_calls process_asset (initial_state loaded fs) (attempts stf)"
    and idx: "idx = spec_index rescan_record (cache_pairs (label_cache stf))"
    by auto
  have cache: "label_cache stf = loaded @ labelled process_asset (attempts stf)"
    by (subst stf) (simp add: record_calls_sel initial_state_def)
  have log: "log_file stf =
      foldl (\<lambda>fs kv. append_label_cache (snd kv) fs) fs (labelled process_asset (attempts stf))"
    by (subst stf) (simp add: record_calls_sel initial_state_def)
  have regen: "regenerate (label_cache stf) = Inr idx"
    by (simp add: regenerate_spec idx)
  have omit: "extract_subject (out_path r) \<noteq> subj"
    if fresh: "\<forall>e. (ds_id, e) \<in> set (cache_pairs loaded) \<longrightarrow> extract_subject (path e) \<noteq> subj"
      and failed: "\<forall>a. (ds_id, a) \<in> set (attempts stf) \<and> extract_subject (listed_path a) = subj
                \<longrightarrow> (\<exists>exc. process_asset ds_id a = Inl exc)"
      and echo: "\<forall>d a r. process_asset d a = Inr r
                \<longrightarrow> extract_subject (path r) = extract_subject (listed_path a)"
      and recs: "map_of idx ds_id = Some recs" and r: "r \<in> set recs" for recs r
  proof
    assume eq: "extract_subject (out_path r) = subj"
    from spec_index_record [OF out_path_rescan_record recs [unfolded idx] r] obtain e where
      e: "(ds_id, e) \<in> set (cache_pairs (label_cache stf))" "extract_subject (path e) = subj"
      using eq by auto
    from e(1) have "(ds_id, e) \<in> set (cache_pairs loaded)
        \<or> (ds_id, e) \<in> set (cache_pairs (labelled process_asset (attempts stf)))"
      by (simp add: cache cache_pairs_append)
    then show False
    proof
      assume "(ds_id, e) \<in> set (cache_pairs loaded)"
      with fresh e(2) show False by blast
    next
      assume "(ds_id, e) \<in> set (cache_pairs (labelled process_asset (attempts stf)))"
      then obtain a where a: "(ds_id, a) \<in> set (attempts stf)" "process_asset ds_id a = Inr e"
        by (auto dest: cache_pairs_labelled)
      with echo e(2) have "extract_subject (listed_path a) = subj" by auto
      with failed a show False by auto
    qed
  qed
  from run cache log regen omit
  have "\<exists>stf idx. rescan_main get_assets process_asset fs = Inr (stf, idx)
      \<and> label_cache stf = loaded @ labelled process_asset (attempts stf)
      \<and> log_file stf =
          foldl (\<lambda>fs kv. append_label_cache (snd kv) fs) fs (labelled process_asset (attempts stf))
      \<and> regenerate (label_cache stf) = Inr idx
      \<and> ((\<forall>e. (ds_id, e) \<in> set (cache_pairs loaded) \<longrightarrow> extract_subject (path e) \<noteq> subj)
          \<and> (\<forall>a. (ds_id, a) \<in> set (attempts stf) \<and> extract_subject (listed_path a) = subj
                \<longrightarrow> (\<exists>exc. process_asset ds_id a = Inl exc))
          \<and> (\<forall>d a r. process_asset d a = Inr r
                \<longrightarrow> extract_subject (path r) = extract_subject (listed_path a))
         \<longrightarrow> (\<forall>recs. map_of idx ds_id = Some recs
                \<longrightarrow> (\<forall>r \<in> set recs. extract_subject (out_path r) \<noteq> subj)))"
    by blast
  with step show ?thesis by blast
qed

theorem labeling_failure_isolated_witness:
  "load_label_cache ex_fs = Inr [((1, ''c1''), ex_entry_c)]
   \<and> ex_get_assets 1 = Inr ex_listing
   \<and> ex_process_b_fails 1 ex_listed_b2 = Inl LabelingError
   \<and> (\<exists>stf idx recs. rescan_main ex_get_assets ex_process_b_fails ex_fs = Inr (stf, idx)
        \<and> attempts stf = [(1, ex_listed_a), (1, ex_listed_b2)]
        \<and> map fst (label_cache stf) = [(1, ''c1''), (1, ''a1'')]
        \<and> map_of idx 1 = Some recs
        \<and> map (\<lambda>r. extract_subject (out_path r)) recs = [''sub-A'', ''sub-C'']
        \<and> ''sub-B'' \<notin> (\<lambda>r. extract_subject (out_path r)) ` set recs)"
proof -
  have h1: "load_label_cache ex_fs = Inr [((1, ''c1''), ex_entry_c)]" by code_simp
  have h2: "\<forall>d \<in> fst ` fst ` set [((1::int, ''c1''), ex_entry_c)]. \<exists>as. ex_get_assets d = Inr as"
    by (simp add: ex_get_assets_def)
  have g: "ex_get_assets 1 = Inr ex_listing" by (simp add: ex_get_assets_def)
  have f: "ex_process_b_fails 1 ex_listed_b2 = Inl LabelingError" by code_simp
  have e1: "map_sum id (attempts \<circ> fst) (rescan_main ex_get_assets ex_process_b_fails ex_fs)
      = Inr [(1, ex_listed_a), (1, ex_listed_b2)]" by code_simp
  have e2: "map_sum id (map fst \<circ> label_cache \<circ> fst)
      (rescan_main ex_get_assets ex_process_b_fails ex_fs) = Inr [(1, ''c1''), (1, ''a1'')]"
    by code_simp
  have e3: "map_sum id (map (map (\<lambda>r. extract_subject (out_path r)) \<circ> snd) \<circ> snd)
      (rescan_main ex_get_assets ex_process_b_fails ex_fs) = Inr [[''sub-A'', ''sub-C'']]"
    by code_simp
  have e4: "map_sum id (map fst \<circ> snd)
      (rescan_main ex_get_assets ex_process_b_fails ex_fs) = Inr [1]"
    by code_simp
  have fresh: "\<forall>e. (1, e) \<in> set (cache_pairs [((1::int, ''c1''), ex_entry_c)])
      \<longrightarrow> extract_subject (path e) \<noteq> ''sub-B''"
    by (simp add: cache_pairs_def ex_entry_c_def extract_subject_eq)
  have echo: "\<forall>d a r. ex_process_b_fails d a = Inr r
      \<longrightarrow> extract_subject (path r) = extract_subject (listed_path a)"
    by (auto simp: ex_process_b_fails_def ex_process_ok_def split: if_splits)
  have fails: "\<forall>a. extract_subject (listed_path a) = ''sub-B''
      \<longrightarrow> (\<exists>exc. ex_process_b_fails 1 a = Inl exc)"
    by (simp add: ex_process_b_fails_def)
  note t = labeling_failure_isolated [where get_assets = ex_get_assets
      and process_asset = ex_process_b_fails and ds_id = 1 and subj = "''sub-B''", OF h1 h2,
      THEN conjunct2]
  from t obtain stf idx where
    run: "rescan_main ex_get_assets ex_process_b_fails ex_fs = Inr (stf, idx)"
    and "label_cache stf = [((1, ''c1''), ex_entry_c)] @ labelled ex_process_b_fails (attempts stf)"
    and "log_file stf = foldl (\<lambda>fs kv. append_label_cache (snd kv) fs) ex_fs
           (labelled ex_process_b_fails (attempts stf))"
    and "regenerate (label_cache stf) = Inr idx"
    and omit: "(\<forall>e. (1, e) \<in> set (cache_pairs [((1::int, ''c1''), ex_entry_c)])
            \<longrightarrow> extract_subject (path e) \<noteq> ''sub-B'')
          \<and> (\<forall>a. (1, a) \<in> set (attempts stf) \<and> extract_subject (listed_path a) = ''sub-B''
                \<longrightarrow> (\<exists>exc. ex_process_b_fails 1 a = Inl exc))
          \<and> (\<forall>d a r. ex_process_b_fails d a = Inr r
                \<longrightarrow> extract_subject (path r) = extract_subject (listed_path a))
         \<longrightarrow> (\<forall>recs. map_of idx 1 = Some recs
                \<longrightarrow> (\<forall>r \<in> set recs. extract_subject (out_path r) \<noteq> ''sub-B''))"
    by (elim exE conjE) (rule that)
  from fails have fails': "\<forall>a. (1, a) \<in> set (attempts stf) \<and> extract_subject (listed_path a) = ''sub-B''
                \<longrightarrow> (\<exists>exc. ex_process_b_fails 1 a = Inl exc)" by simp
  have no_b: "\<forall>recs. map_of idx 1 = Some recs
        \<longrightarrow> (\<forall>r \<in> set recs. extract_subject (out_path r) \<noteq> ''sub-B'')"
    by (rule omit [THEN mp]) (intro conjI fresh fails' echo)
  from run e1 have a: "attempts stf = [(1, ex_listed_a), (1, ex_listed_b2)]" by simp
  from run e2 have c: "map fst (label_cache stf) = [(1, ''c1''), (1, ''a1'')]" by simp
  from run e4 have "map fst idx = [1]" by simp
  then obtain recs where idx: "idx = [(1, recs)]" by (cases idx) auto
  with run e3 have s: "map (\<lambda>r. extract_subject (out_path r)) recs = [''sub-A'', ''sub-C'']"
    by simp
  from idx have m: "map_of idx 1 = Some recs" by simp
  from no_b [THEN spec, THEN mp, OF m]
  have nb: "''sub-B'' \<notin> (\<lambda>r. extract_subject (out_path r)) ` set recs" by auto
  have "\<exists>stf idx recs. rescan_main ex_get_assets ex_process_b_fails ex_fs = Inr (stf, idx)
        \<and> attempts stf = [(1, ex_listed_a), (1, ex_listed_b2)]
        \<and> map fst (label_cache stf) = [(1, ''c1''), (1, ''a1'')]
        \<and> map_of idx 1 = Some recs
        \<and> map (\<lambda>r. extract_subject (out_path r)) recs = [''sub-A'', ''sub-C'']
        \<and> ''sub-B'' \<notin> (\<lambda>r. extract_subject (out_path r)) ` set recs"
    using run a c m s nb by (intro exI [of _ stf] exI [of _ idx] exI [of _ recs] conjI)
  with h1 g f show ?thesis by (intro conjI)
qed

text \<open>
  Claim C5 as stated fails in its last part when the cache already holds an entry of the
  subject under an asset identifier that the listing lacks: labeling the listed asset
  \<^verbatim>\<open>b2\<close> of subject B fails, and the final index still has the record of the older entry
  of subject B.
\<close>

theorem stale_entry_in_index_counterexample:
  "ex_process_fail 1 ex_listed_b2 = Inl LabelingError
   \<and> extract_subject (listed_path ex_listed_b2) = ''sub-B''
   \<and> map_sum id (attempts \<circ> fst) (rescan_main ex_get_b ex_process_fail (Some [Record ex_old]))
        = Inr [(1, ex_listed_b2)]
   \<and> map_sum id snd (rescan_main ex_get_b ex_process_fail (Some [Record ex_old]))
        = Inr [(1, [rescan_record ex_old])]
   \<and> extract_subject (out_path (rescan_record ex_old)) = ''sub-B''"
proof -
  have 1: "ex_process_fail 1 ex_listed_b2 = Inl LabelingError" by (simp add: ex_process_fail_def)
  have 2: "extract_subject (listed_path ex_listed_b2) = ''sub-B''"
    by (simp add: ex_listed_b2_def extract_subject_eq)
  have 3: "map_sum id (attempts \<circ> fst)
      (rescan_main ex_get_b ex_process_fail (Some [Record ex_old])) = Inr [(1, ex_listed_b2)]"
    by code_simp
  have 4: "map_sum id snd (rescan_main ex_get_b ex_process_fail (Some [Record ex_old]))
        = Inr [(1, [rescan_record ex_old])]"
    by code_simp
  have 5: "extract_subject (out_path (rescan_record ex_old)) = ''sub-B''"
    by (simp add: rescan_record_def ex_old_def extract_subject_eq)
  from 1 2 3 4 5 show ?thesis by blast
qed

section \<open>Order of the index, and the two ways of reading the log\<close>

lemma set_subjects_of:
  "set (subjects_of xs did) = (\<lambda>x. extract_subject (path (snd x))) ` {x \<in> set xs. fst x = did}"
  by (force simp: subjects_of_def)

lemma spec_index_ascending:
  assumes mk: "\<And>e. out_path (mk e) = path e"
  shows "ascending_index xs (spec_index mk xs)"
proof -
  have sub: "sorted_wrt (<) (map (\<lambda>r. extract_subject (out_path r)) recs)
        \<and> set (map (\<lambda>r. extract_subject (out_path r)) recs)
              = (\<lambda>x. extract_subject (path (snd x))) ` {x \<in> set xs. fst x = did}"
    if "(did, recs) \<in> set (spec_index mk xs)" for did recs
  proof -
    from that have "recs = map (\<lambda>subj. mk (canonical (members xs did subj))) (subjects_of xs did)"
      by (auto simp: spec_index_def)
    then have "map (\<lambda>r. extract_subject (out_path r)) recs = subjects_of xs did"
      using subjects_of_records [OF mk, of xs did] by simp
    then show ?thesis
      using strict_subjects_of [of xs did] set_subjects_of [of xs did] by (simp only:)
  qed
  have inner: "\<forall>(did, recs) \<in> set (spec_index mk xs).
          sorted_wrt (<) (map (\<lambda>r. extract_subject (out_path r)) recs)
          \<and> set (map (\<lambda>r. extract_subject (out_path r)) recs)
              = (\<lambda>x. extract_subject (path (snd x))) ` {x \<in> set xs. fst x = did}"
  proof (intro ballI)
    fix p assume p: "p \<in> set (spec_index mk xs)"
    obtain did recs where eq: "p = (did, recs)" by (cases p)
    from p show "case p of (did, recs) \<Rightarrow>
          sorted_wrt (<) (map (\<lambda>r. extract_subject (out_path r)) recs)
          \<and> set (map (\<lambda>r. extract_subject (out_path r)) recs)
              = (\<lambda>x. extract_subject (path (snd x))) ` {x \<in> set xs. fst x = did}"
      unfolding eq prod.case by (rule sub)
  qed
  have k1: "sorted_wrt (<) (map fst (spec_index mk xs))"
    by (simp only: keys_spec_index strict_dandisets_of)
  have k2: "set (map fst (spec_index mk xs)) = fst ` set xs"
    by (simp only: keys_spec_index set_dandisets_of)
  from k1 k2 inner show ?thesis
    unfolding ascending_index_def by (intro conjI)
qed

text \<open>
  Claim C9. In the index of either script the dandiset keys are in strictly ascending order,
  and under each dandiset the records are in strictly ascending order of their subject key,
  with exactly one record for each subject that the dandiset's entries have.
\<close>

theorem index_ascending_one_per_subject:
  "(\<exists>idx. regenerate cache = Inr idx \<and> ascending_index (cache_pairs cache) idx)
   \<and> (\<exists>idx. gen_main (Some (map Record es)) = Inr idx \<and> ascending_index (log_pairs es) idx)"
proof -
  have "ascending_index (cache_pairs cache) (spec_index rescan_record (cache_pairs cache))"
    by (rule spec_index_ascending [OF out_path_rescan_record])
  moreover have "ascending_index (log_pairs es) (spec_index gen_record (log_pairs es))"
    by (rule spec_index_ascending [OF out_path_gen_record])
  ultimately show ?thesis
    by (simp add: regenerate_spec gen_main_records)
qed

theorem index_ascending_one_per_subject_witness:
  "regenerate ex_cache2
     = Inr [(1, [rescan_record ex_q, rescan_record ex_a]), (2, [rescan_record ex_z])]
   \<and> gen_main (Some (map Record [ex_z, ex_b, ex_q, ex_a]))
     = Inr [(1, [gen_record ex_q, gen_record ex_a]), (2, [gen_record ex_z])]
   \<and> ascending_index (cache_pairs ex_cache2)
        [(1, [rescan_record ex_q, rescan_record ex_a]), (2, [rescan_record ex_z])]
   \<and> ascending_index (log_pairs [ex_z, ex_b, ex_q, ex_a])
        [(1, [gen_record ex_q, gen_record ex_a]), (2, [gen_record ex_z])]
   \<and> map (\<lambda>r. extract_subject (out_path r)) [rescan_record ex_q, rescan_record ex_a]
        = [''sub-00'', ''sub-01'']"
proof -
  have r: "regenerate ex_cache2
     = Inr [(1, [rescan_record ex_q, rescan_record ex_a]), (2, [rescan_record ex_z])]"
    by code_simp
  have g: "gen_main (Some (map Record [ex_z, ex_b, ex_q, ex_a]))
     = Inr [(1, [gen_record ex_q, gen_record ex_a]), (2, [gen_record ex_z])]"
    by code_simp
  have s: "map (\<lambda>r. extract_subject (out_path r)) [rescan_record ex_q, rescan_record ex_a]
        = [''sub-00'', ''sub-01'']"
    by code_simp
  note t = index_ascending_one_per_subject [of ex_cache2 "[ex_z, ex_b, ex_q, ex_a]"]
  from t [THEN conjunct1] r have a1: "ascending_index (cache_pairs ex_cache2)
        [(1, [rescan_record ex_q, rescan_record ex_a]), (2, [rescan_record ex_z])]"
    by auto
  from t [THEN conjunct2] g have a2: "ascending_index (log_pairs [ex_z, ex_b, ex_q, ex_a])
        [(1, [gen_record ex_q, gen_record ex_a]), (2, [gen_record ex_z])]"
    by auto
  from r g a1 a2 s show ?thesis by (intro conjI)
qed

lemma map_of_loaded:
  "map_of (foldl (\<lambda>c e. AList.update (entry_key e) e c) c es) k =
     (case filter (\<lambda>e. entry_key e = k) es of
        [] \<Rightarrow> map_of c k
      | e # es' \<Rightarrow> Some (last (e # es')))"
proof (induction es arbitrary: c)
  case Nil
  show ?case by simp
next
  case (Cons e es)
  show ?case
    by (simp add: Cons.IH update_conv' split: list.splits)
qed

lemma distinct_loaded:
  "distinct (map fst c) \<Longrightarrow>
   distinct (map fst (foldl (\<lambda>c e. AList.update (entry_key e) e c) c es))"
  by (induction es arbitrary: c) (simp_all add: distinct_update)

lemma loaded_distinct_keys:
  "distinct (map entry_key es) \<Longrightarrow> entry_key ` set es \<inter> fst ` set c = {} \<Longrightarrow>
   foldl (\<lambda>c e. AList.update (entry_key e) e c) c es = c @ map (\<lambda>e. (entry_key e, e)) es"
proof (induction es arbitrary: c)
  case Nil
  show ?case by simp
next
  case (Cons e es)
  from Cons.prems have fresh: "entry_key e \<notin> fst ` set c" by auto
  have "foldl (\<lambda>c e. AList.update (entry_key e) e c) (c @ [(entry_key e, e)]) es =
      (c @ [(entry_key e, e)]) @ map (\<lambda>e. (entry_key e, e)) es"
    using Cons.prems by (intro Cons.IH) auto
  with fresh show ?case by (simp add: update_absent)
qed

lemma load_Some:
  "load_label_cache (Some ls) =
     (if Malformed \<in> set ls then Inl MalformedRecordError
      else Inr (foldl (\<lambda>c e. AList.update (entry_key e) e c) [] (records ls)))"
  by (simp add: load_label_cache_def load_lines_eq)

lemma map_of_append_left: "k \<in> fst ` set xs \<Longrightarrow> map_of (xs @ ys) k = map_of xs k"
  by (induction xs) auto

text \<open>
  Claim C6, as the code has it. When a key occurs on several lines of the log,
  \<^verbatim>\<open>load_label_cache\<close> gives a table with one entry for the key, the entry of the last
  such line; the synchronizer keeps that entry to the end of its run and regenerates the
  index from its table alone.
\<close>

theorem load_last_line_wins:
  assumes load: "load_label_cache (Some ls) = Inr cache" and e: "e \<in> set (records ls)"
  shows "map_of cache (entry_key e)
           = Some (last (filter (\<lambda>e'. entry_key e' = entry_key e) (records ls)))
     \<and> distinct (map fst cache)
     \<and> regenerate cache = Inr (spec_index rescan_record (cache_pairs cache))
     \<and> (\<forall>get_assets process_asset stf idx.
           rescan_main get_assets process_asset (Some ls) = Inr (stf, idx)
           \<longrightarrow> map_of (label_cache stf) (entry_key e)
                 = Some (last (filter (\<lambda>e'. entry_key e' = entry_key e) (records ls)))
               \<and> idx = spec_index rescan_record (cache_pairs (label_cache stf)))"
proof -
  let ?same = "filter (\<lambda>e'. entry_key e' = entry_key e) (records ls)"
  from load have cache: "cache = foldl (\<lambda>c e. AList.update (entry_key e) e c) [] (records ls)"
    by (simp add: load_Some split: if_splits)
  from e have "?same \<noteq> []" by (auto simp: filter_empty_conv)
  then have look: "map_of cache (entry_key e) = Some (last ?same)"
    unfolding cache by (simp add: map_of_loaded split: list.splits)
  have dist: "distinct (map fst cache)"
    unfolding cache by (rule distinct_loaded) simp
  have run: "map_of (label_cache stf) (entry_key e) = Some (last ?same)
      \<and> idx = spec_index rescan_record (cache_pairs (label_cache stf))"
    if "rescan_main get_assets process_asset (Some ls) = Inr (stf, idx)"
    for get_assets process_asset stf idx
  proof -
    from rescan_main_Inr [OF that] load have
      stf: "stf = record_calls process_asset (initial_state cache (Some ls)) (attempts stf)"
      and idx: "idx = spec_index rescan_record (cache_pairs (label_cache stf))"
      by auto
    have "label_cache stf = cache @ labelled process_asset (attempts stf)"
      by (subst stf) (simp add: record_calls_sel initial_state_def)
    moreover from look have "entry_key e \<in> fst ` set cache"
      by (metis domI dom_map_of_conv_image_fst)
    ultimately have "map_of (label_cache stf) (entry_key e) = map_of cache (entry_key e)"
      by (simp only: map_of_append_left)
    with look idx show ?thesis by simp
  qed
  from look dist run show ?thesis by (simp add: regenerate_spec)
qed

theorem load_last_line_wins_witness:
  "load_label_cache (Some ex_dup_log) = Inr [((1, ''x''), ex_dup_new)]
   \<and> ex_dup_old \<in> set (records ex_dup_log)
   \<and> last (filter (\<lambda>e'. entry_key e' = entry_key ex_dup_old) (records ex_dup_log)) = ex_dup_new
   \<and> map_of [((1, ''x''), ex_dup_new)] (entry_key ex_dup_old) = Some ex_dup_new
   \<and> map_sum id snd (rescan_main ex_no_assets ex_process_fail (Some ex_dup_log))
        = Inr (spec_index rescan_record [(1, ex_dup_new)])
   \<and> spec_index rescan_record [(1, ex_dup_new)] = [(1, [rescan_record ex_dup_new])]"
proof -
  have h1: "load_label_cache (Some ex_dup_log) = Inr [((1, ''x''), ex_dup_new)]" by code_simp
  have h2: "ex_dup_old \<in> set (records ex_dup_log)" by (simp add: ex_dup_log_def)
  have l: "last (filter (\<lambda>e'. entry_key e' = entry_key ex_dup_old) (records ex_dup_log))
      = ex_dup_new"
    by (simp add: ex_dup_log_def entry_key_def ex_dup_old_def ex_dup_new_def)
  have ev: "map_sum id (map fst \<circ> label_cache \<circ> fst)
      (rescan_main ex_no_assets ex_process_fail (Some ex_dup_log)) = Inr [(1, ''x'')]"
    by code_simp
  have sp: "spec_index rescan_record [(1::int, ex_dup_new)] = [(1, [rescan_record ex_dup_new])]"
    by code_simp
  note t = load_last_line_wins [OF h1 h2]
  from ev obtain stf idx where
    run: "rescan_main ex_no_assets ex_process_fail (Some ex_dup_log) = Inr (stf, idx)"
    by (cases "rescan_main ex_no_assets ex_process_fail (Some ex_dup_log)") auto
  from t run have look: "map_of (label_cache stf) (entry_key ex_dup_old) = Some ex_dup_new"
    and idx: "idx = spec_index rescan_record (cache_pairs (label_cache stf))"
    unfolding l by blast+
  from run ev have keys: "map fst (label_cache stf) = [(1, ''x'')]" by simp
  then obtain v where c: "label_cache stf = [((1, ''x''), v)]"
    by (cases "label_cache stf") auto
  with look have "v = ex_dup_new" by (simp add: entry_key_def ex_dup_old_def)
  with c idx have "idx = spec_index rescan_record [(1, ex_dup_new)]"
    by (simp add: cache_pairs_def)
  with run have r: "map_sum id snd (rescan_main ex_no_assets ex_process_fail (Some ex_dup_log))
        = Inr (spec_index rescan_record [(1, ex_dup_new)])" by simp
  from t l have m: "map_of [((1, ''x''), ex_dup_new)] (entry_key ex_dup_old) = Some ex_dup_new"
    by simp
  from h1 h2 l m r sp show ?thesis by (intro conjI)
qed

text \<open>
  The last part of claim C6 fails for the standalone script, which has no table: both lines
  of one key stay candidates of their subject, and of two lines with one path the stable sort
  puts the first line, not the last, into the index.
\<close>

theorem standalone_keeps_first_line_counterexample:
  "entry_key ex_dup_old = entry_key ex_dup_new
   \<and> load_label_cache (Some ex_dup_log) = Inr [((1, ''x''), ex_dup_new)]
   \<and> gen_main (Some ex_dup_log) = Inr [(1, [gen_record ex_dup_old])]
   \<and> regions (gen_record ex_dup_old) = [ex_ctx]
   \<and> regions (gen_record ex_dup_new) = []"
proof -
  have 1: "entry_key ex_dup_old = entry_key ex_dup_new"
    by (simp add: entry_key_def ex_dup_old_def ex_dup_new_def)
  have 2: "load_label_cache (Some ex_dup_log) = Inr [((1, ''x''), ex_dup_new)]" by code_simp
  have 3: "gen_main (Some ex_dup_log) = Inr [(1, [gen_record ex_dup_old])]" by code_simp
  have 4: "regions (gen_record ex_dup_old) = [ex_ctx]" by code_simp
  have 5: "regions (gen_record ex_dup_new) = []" by code_simp
  from 1 2 3 4 5 show ?thesis by (intro conjI)
qed

lemma records_no_blank: "records (filter (\<lambda>l. l \<noteq> Blank) ls) = records ls"
  by (induction ls rule: records.induct) auto

lemma gen_main_Some:
  "gen_main (Some ls) =
     (if Blank \<in> set ls \<or> Malformed \<in> set ls then Inl MalformedRecordError
      else Inr (spec_index gen_record (log_pairs (records ls))))"
proof (cases "Blank \<in> set ls \<or> Malformed \<in> set ls")
  case True
  then show ?thesis by (simp add: gen_main_def gen_read_eq)
next
  case False
  then show ?thesis using gen_main_spec [of ls] by simp
qed

text \<open>
  Claim C8, as the code has it. \<^verbatim>\<open>load_label_cache\<close> returns the empty mapping when the
  log does not exist, gives the same result with and without the blank lines, and enters
  every other line as one entry (or fails at a line that does not parse). The standalone
  script fails when the log does not exist and at every blank line, and otherwise reads
  every line as one entry.
\<close>

theorem load_skips_blank_lines:
  "load_label_cache (None :: 'd::linorder line list option) = Inr []
   \<and> load_label_cache (Some ls) = load_label_cache (Some (filter (\<lambda>l. l \<noteq> Blank) ls))
   \<and> load_label_cache (Some ls) =
       (if Malformed \<in> set ls then Inl MalformedRecordError
        else Inr (foldl (\<lambda>c e. AList.update (entry_key e) e c) [] (records ls)))
   \<and> gen_main (None :: 'd line list option) = Inl FileNotFoundError
   \<and> gen_main (Some ls) =
       (if Blank \<in> set ls \<or> Malformed \<in> set ls then Inl MalformedRecordError
        else Inr (spec_index gen_record (log_pairs (records ls))))"
proof -
  have 1: "load_label_cache (None :: 'd line list option) = Inr []"
    by (simp add: load_label_cache_def)
  have 2: "load_label_cache (Some ls) = load_label_cache (Some (filter (\<lambda>l. l \<noteq> Blank) ls))"
    by (simp add: load_Some records_no_blank)
  have 3: "gen_main (None :: 'd line list option) = Inl FileNotFoundError"
    by (simp add: gen_main_def)
  from 1 2 3 load_Some [of ls] gen_main_Some [of ls] show ?thesis by (intro conjI)
qed

text \<open>
  Claim C8 as stated fails for the standalone script: without a log it raises, and with a
  blank line in the log it raises, where \<^verbatim>\<open>load_label_cache\<close> returns a mapping.
\<close>

theorem standalone_load_fails_counterexample:
  "gen_main (None :: int line list option) = Inl FileNotFoundError
   \<and> load_label_cache (None :: int line list option) = Inr []
   \<and> gen_main (Some [Blank, Record ex_a]) = Inl MalformedRecordError
   \<and> load_label_cache (Some [Blank, Record ex_a]) = Inr [((1, ''x''), ex_a)]"
proof -
  have 1: "gen_main (None :: int line list option) = Inl FileNotFoundError"
    by (simp add: gen_main_def)
  have 2: "load_label_cache (None :: int line list option) = Inr []"
    by (simp add: load_label_cache_def)
  have 3: "gen_main (Some [Blank, Record ex_a]) = Inl MalformedRecordError"
    by (simp add: gen_main_def)
  have 4: "load_label_cache (Some [Blank, Record ex_a]) = Inr [((1, ''x''), ex_a)]"
    by (simp add: load_label_cache_def ex_a_def)
  from 1 2 3 4 show ?thesis by (intro conjI)
qed

lemma log_appended:
  "foldl (\<lambda>fs kv. append_label_cache (snd kv) fs) (Some ls) kvs =
     Some (ls @ map (\<lambda>kv. Record (snd kv)) kvs)"
  by (induction kvs arbitrary: ls) (simp_all add: append_label_cache_def)

lemma gen_record_fun: "gen_record = rescan_record"
  by (rule ext) (rule gen_record_eq)

lemma cache_pairs_keyed: "cache_pairs (map (\<lambda>e. (entry_key e, e)) es) = log_pairs es"
  by (simp add: cache_pairs_def log_pairs_def entry_key_def)

lemma accepted_lines:
  assumes "\<forall>r \<in> set rs. accepted_by_both r"
  shows "map unstripped rs = map stripped rs"
    and "Blank \<notin> set (map stripped rs)" and "Malformed \<notin> set (map stripped rs)"
  using assms by (induction rs) (auto simp: accepted_by_both_def split: line.splits)

lemma accepted_log_index:
  assumes nb: "Blank \<notin> set ls" and nm: "Malformed \<notin> set ls"
    and dk: "distinct (map entry_key (records ls))"
  shows "gen_main (Some ls) = Inr (spec_index rescan_record (log_pairs (records ls)))"
    and "load_label_cache (Some ls) = Inr (map (\<lambda>e. (entry_key e, e)) (records ls))"
    and "regenerate (map (\<lambda>e. (entry_key e, e)) (records ls)) =
          Inr (spec_index rescan_record (log_pairs (records ls)))"
proof -
  have loaded: "foldl (\<lambda>c e. AList.update (entry_key e) e c) [] (records ls) =
      map (\<lambda>e. (entry_key e, e)) (records ls)"
    using loaded_distinct_keys [OF dk, of "[]"] by simp
  show "gen_main (Some ls) = Inr (spec_index rescan_record (log_pairs (records ls)))"
    using nb nm by (simp add: gen_main_Some gen_record_fun)
  show "load_label_cache (Some ls) = Inr (map (\<lambda>e. (entry_key e, e)) (records ls))"
    using nm by (simp add: load_Some loaded)
  show "regenerate (map (\<lambda>e. (entry_key e, e)) (records ls)) =
          Inr (spec_index rescan_record (log_pairs (records ls)))"
    by (simp add: regenerate_spec cache_pairs_keyed)
qed

lemma unchanged_log_index:
  assumes run: "rescan_main get_assets process_asset (Some ls) = Inr (stf, idx)"
    and log: "log_file stf = Some ls"
  shows "\<exists>c. load_label_cache (Some ls) = Inr c \<and> regenerate c = Inr idx"
proof -
  from rescan_main_Inr [OF run] obtain c where
    c: "load_label_cache (Some ls) = Inr c"
    and stf: "stf = record_calls process_asset (initial_state c (Some ls)) (attempts stf)"
    and idx: "idx = spec_index rescan_record (cache_pairs (label_cache stf))"
    by blast
  have "log_file stf = Some (ls @ map (\<lambda>kv. Record (snd kv))
      (labelled process_asset (attempts stf)))"
    by (subst stf) (simp add: record_calls_sel initial_state_def log_appended)
  with log have none: "labelled process_asset (attempts stf) = []" by simp
  have "label_cache stf = c @ labelled process_asset (attempts stf)"
    by (subst stf) (simp add: record_calls_sel initial_state_def)
  with none have "label_cache stf = c" by simp
  with idx have "regenerate c = Inr idx" by (simp add: regenerate_spec)
  with c show ?thesis by blast
qed

text \<open>
  Claim C10, as the code has it. For a log that exists, whose every line both readers accept
  as the same entry (the synchronizer parsing the stripped line, the standalone script the
  line as it is; so no line is blank) and which has each key on one line only, the
  standalone script writes an index, the synchronizer's regeneration over the loaded cache
  gives the same index, and so does every synchronizer run that leaves the log as it was.
\<close>

theorem standalone_index_equals_synchronizer_index:
  assumes acc: "\<forall>r \<in> set rs. accepted_by_both r"
    and dk: "distinct (map entry_key (records (map stripped rs)))"
  shows "\<exists>idx. gen_main (Some (map unstripped rs)) = Inr idx
     \<and> (case load_label_cache (Some (map stripped rs)) of
           Inl err \<Rightarrow> Inl err | Inr cache \<Rightarrow> regenerate cache) = Inr idx
     \<and> (\<forall>get_assets process_asset stf idx'.
           rescan_main get_assets process_asset (Some (map stripped rs)) = Inr (stf, idx')
           \<and> log_file stf = Some (map stripped rs)
           \<longrightarrow> idx' = idx)"
proof -
  let ?ls = "map stripped rs"
  let ?idx = "spec_index rescan_record (log_pairs (records ?ls))"
  note a = accepted_lines [OF acc]
  note i = accepted_log_index [OF a(2) a(3) dk]
  have g: "gen_main (Some (map unstripped rs)) = Inr ?idx"
    by (simp only: a(1) i(1))
  have r: "(case load_label_cache (Some ?ls) of
           Inl err \<Rightarrow> Inl err | Inr cache \<Rightarrow> regenerate cache) = Inr ?idx"
    by (simp add: i(2) i(3))
  have u: "idx' = ?idx"
    if "rescan_main get_assets process_asset (Some ?ls) = Inr (stf, idx')
        \<and> log_file stf = Some ?ls"
    for get_assets process_asset stf idx'
  proof -
    from that unchanged_log_index [of get_assets process_asset ?ls stf idx']
    obtain c where "load_label_cache (Some ?ls) = Inr c" "regenerate c = Inr idx'" by blast
    with i(2) i(3) show ?thesis by simp
  qed
  from g r u show ?thesis by blast
qed

theorem standalone_index_equals_synchronizer_index_witness:
  "accepted_by_both \<lparr>stripped = Record ex_b, unstripped = Record ex_b\<rparr>
   \<and> accepted_by_both \<lparr>stripped = Record ex_a, unstripped = Record ex_a\<rparr>
   \<and> distinct (map entry_key (records (map stripped ex_both_log)))
   \<and> map_sum id (log_file \<circ> fst)
        (rescan_main ex_no_assets ex_process_fail (Some (map stripped ex_both_log)))
       = Inr (Some (map stripped ex_both_log))
   \<and> map_sum id snd (rescan_main ex_no_assets ex_process_fail (Some (map stripped ex_both_log)))
       = gen_main (Some (map unstripped ex_both_log))
   \<and> gen_main (Some (map unstripped ex_both_log)) = Inr [(1, [gen_record ex_a])]"
proof -
  let ?ls = "map stripped ex_both_log"
  have b1: "accepted_by_both \<lparr>stripped = Record ex_b, unstripped = Record ex_b\<rparr>"
    by (simp add: accepted_by_both_def)
  have b2: "accepted_by_both \<lparr>stripped = Record ex_a, unstripped = Record ex_a\<rparr>"
    by (simp add: accepted_by_both_def)
  from b1 b2 have h1: "\<forall>r \<in> set ex_both_log. accepted_by_both r"
    by (simp add: ex_both_log_def)
  have h2: "distinct (map entry_key (records ?ls))"
    by (simp add: ex_both_log_def entry_key_def ex_a_def ex_b_def)
  have l: "map_sum id (log_file \<circ> fst) (rescan_main ex_no_assets ex_process_fail (Some ?ls))
       = Inr (Some ?ls)"
    by code_simp
  have g: "gen_main (Some (map unstripped ex_both_log)) = Inr [(1, [gen_record ex_a])]"
    by code_simp
  from l obtain stf idx' where
    run: "rescan_main ex_no_assets ex_process_fail (Some ?ls) = Inr (stf, idx')"
    by (cases "rescan_main ex_no_assets ex_process_fail (Some ?ls)") auto
  with l have log: "log_file stf = Some ?ls" by simp
  from standalone_index_equals_synchronizer_index [OF h1 h2] obtain idx where
    gi: "gen_main (Some (map unstripped ex_both_log)) = Inr idx"
    and same: "\<forall>get_assets process_asset stf idx'.
           rescan_main get_assets process_asset (Some ?ls) = Inr (stf, idx')
           \<and> log_file stf = Some ?ls \<longrightarrow> idx' = idx"
    by (elim exE conjE) (rule that)
  from same run log have "idx' = idx" by blast
  with run gi have e: "map_sum id snd (rescan_main ex_no_assets ex_process_fail (Some ?ls))
       = gen_main (Some (map unstripped ex_both_log))" by simp
  from b1 b2 h2 l e g show ?thesis by (intro conjI)
qed

text \<open>
  The condition on the lines is needed: a line that starts with a form feed is an entry for
  the synchronizer and makes the standalone script raise.
\<close>

lemma line_accepted_by_one_reader_example:
  "\<not> accepted_by_both ex_form_feed"
  "gen_main (Some (map unstripped [ex_form_feed])) = Inl MalformedRecordError"
  "map_sum id snd (rescan_main ex_no_assets ex_process_fail (Some (map stripped [ex_form_feed])))
     = Inr [(1, [rescan_record ex_a])]"
  by code_simp+

text \<open>
  Claim C10 as stated fails on a log with a repeated key (the standalone script keeps the
  first line, the synchronizer the last), on a log with a blank line and on a missing log
  (the standalone script raises, the synchronizer writes an index).
\<close>

theorem standalone_differs_from_synchronizer_counterexample:
  "gen_main (Some ex_dup_log) = Inr [(1, [rescan_record ex_dup_old])]
   \<and> map_sum id snd (rescan_main ex_no_assets ex_process_fail (Some ex_dup_log))
       = Inr [(1, [rescan_record ex_dup_new])]
   \<and> map_sum id (log_file \<circ> fst) (rescan_main ex_no_assets ex_process_fail (Some ex_dup_log))
       = Inr (Some ex_dup_log)
   \<and> regions (rescan_record ex_dup_old) = [ex_ctx]
   \<and> regions (rescan_record ex_dup_new) = []
   \<and> gen_main (Some [Blank, Record ex_a]) = Inl MalformedRecordError
   \<and> map_sum id snd (rescan_main ex_no_assets ex_process_fail (Some [Blank, Record ex_a]))
       = Inr [(1, [rescan_record ex_a])]
   \<and> gen_main (None :: int line list option) = Inl FileNotFoundError
   \<and> map_sum id snd (rescan_main ex_no_assets ex_process_fail (None :: int line list option))
       = Inr []"
proof -
  have 1: "gen_main (Some ex_dup_log) = Inr [(1, [rescan_record ex_dup_old])]" by code_simp
  have 2: "map_sum id snd (rescan_main ex_no_assets ex_process_fail (Some ex_dup_log))
       = Inr [(1, [rescan_record ex_dup_new])]" by code_simp
  have 3: "map_sum id (log_file \<circ> fst)
      (rescan_main ex_no_assets ex_process_fail (Some ex_dup_log)) = Inr (Some ex_dup_log)"
    by code_simp
  have 4: "regions (rescan_record ex_dup_old) = [ex_ctx]" by code_simp
  have 5: "regions (rescan_record ex_dup_new) = []" by code_simp
  have 6: "gen_main (Some [Blank, Record ex_a]) = Inl MalformedRecordError"
    by (simp add: gen_main_def)
  have 7: "map_sum id snd (rescan_main ex_no_assets ex_process_fail (Some [Blank, Record ex_a]))
       = Inr [(1, [rescan_record ex_a])]" by code_simp
  have 8: "gen_main (None :: int line list option) = Inl FileNotFoundError"
    by (simp add: gen_main_def)
  have 9: "map_sum id snd
      (rescan_main ex_no_assets ex_process_fail (None :: int line list option)) = Inr []"
    by code_simp
  from 1 2 3 4 5 6 7 8 9 show ?thesis by (intro conjI)
qed

end
